theory Spec2Isabelle
  imports Complex_Main
begin

section \<open>Image registration by mutual information: the embedding\<close>

text \<open>
  The development follows \<^verbatim>\<open>src/mutualinformation.py\<close>. Every Python function of the
  registration core is a HOL function of the same name. An exception is a value
  \<open>Inl e\<close> of the result type \<open>error + 'a\<close>; a \<^verbatim>\<open>for\<close> loop is \<open>for_each\<close> over the
  list of its indices, threading the variables the loop body assigns.
\<close>

subsection \<open>Exceptions and loops\<close>

datatype error = IndexError | OverflowError | ValueError

fun for_each :: "('a \<Rightarrow> 's \<Rightarrow> error + 's) \<Rightarrow> 'a list \<Rightarrow> 's \<Rightarrow> error + 's" where
  "for_each body [] s = Inr s"
| "for_each body (x # xs) s =
     (case body x s of Inl e \<Rightarrow> Inl e | Inr s' \<Rightarrow> for_each body xs s')"

text \<open>
  Indexing a sequence of length \<open>n\<close> with a Python integer: a negative index counts
  from the end, anything outside \<open>-n .. n-1\<close> is out of range (here \<open>None\<close>).
\<close>

definition py_index :: "nat \<Rightarrow> int \<Rightarrow> nat option" where
  "py_index n k =
     (if 0 \<le> k \<and> k < int n then Some (nat k)
      else if - int n \<le> k \<and> k < 0 then Some (nat (int n + k))
      else None)"

text \<open>
  The exception of an index that is out of range. numpy converts the index to a C long
  first, 64 bits wide here, and raises OverflowError for a Python integer that does not
  fit; an index that fits and is out of range raises IndexError. The arrays of this
  program are shorter than \<open>2^63\<close>, so an index that does not fit is out of range.
\<close>

definition index_error :: "int \<Rightarrow> error" where
  "index_error k = (if - (2 ^ 63) \<le> k \<and> k < 2 ^ 63 then IndexError else OverflowError)"

text \<open>\<^verbatim>\<open>range(start, stop, step)\<close> for a non-zero step; a zero step is a ValueError.\<close>

function py_range :: "int \<Rightarrow> int \<Rightarrow> int \<Rightarrow> int list" where
  "py_range start stop step =
     (if 0 < step \<and> start < stop then start # py_range (start + step) stop step
      else if step < 0 \<and> stop < start then start # py_range (start + step) stop step
      else [])"
  by pat_completeness auto
termination
  by (relation "measure (\<lambda>(start, stop, step).
        nat (if 0 < step then stop - start else start - stop))") auto

declare py_range.simps [simp del]

definition range3 :: "int \<Rightarrow> int \<Rightarrow> int \<Rightarrow> error + int list" where
  "range3 start stop step =
     (if step = 0 then Inl ValueError else Inr (py_range start stop step))"

subsection \<open>Floating-point values\<close>

text \<open>
  A float is a finite real, an infinity or NaN. Rounding is not modelled: a finite
  result is the exact real. The operations are those of numpy's \<^verbatim>\<open>float64\<close> scalars
  and arrays, which do not raise on a division by zero but give an infinity or NaN.
  Zero is unsigned and divides as \<open>+0.0\<close>; every zero of this program is one (a count,
  or a sum, product or quotient of non-negative values).
\<close>

datatype fl = Fin real | PInf | NInf | NaN

fun fadd :: "fl \<Rightarrow> fl \<Rightarrow> fl" where
  "fadd (Fin a) (Fin b) = Fin (a + b)"
| "fadd NaN _ = NaN"
| "fadd _ NaN = NaN"
| "fadd PInf NInf = NaN"
| "fadd NInf PInf = NaN"
| "fadd PInf _ = PInf"
| "fadd _ PInf = PInf"
| "fadd NInf _ = NInf"
| "fadd _ NInf = NInf"

definition inf_of_sign :: "real \<Rightarrow> fl" where
  "inf_of_sign s = (if 0 < s then PInf else if s < 0 then NInf else NaN)"

fun fmul :: "fl \<Rightarrow> fl \<Rightarrow> fl" where
  "fmul (Fin a) (Fin b) = Fin (a * b)"
| "fmul NaN _ = NaN"
| "fmul _ NaN = NaN"
| "fmul PInf (Fin b) = inf_of_sign b"
| "fmul NInf (Fin b) = inf_of_sign (- b)"
| "fmul (Fin a) PInf = inf_of_sign a"
| "fmul (Fin a) NInf = inf_of_sign (- a)"
| "fmul PInf PInf = PInf"
| "fmul NInf NInf = PInf"
| "fmul PInf NInf = NInf"
| "fmul NInf PInf = NInf"

fun fdiv :: "fl \<Rightarrow> fl \<Rightarrow> fl" where
  "fdiv (Fin a) (Fin b) = (if b = 0 then inf_of_sign a else Fin (a / b))"
| "fdiv NaN _ = NaN"
| "fdiv _ NaN = NaN"
| "fdiv (Fin a) _ = Fin 0"
| "fdiv PInf (Fin b) = (if 0 \<le> b then PInf else NInf)"
| "fdiv NInf (Fin b) = (if 0 \<le> b then NInf else PInf)"
| "fdiv PInf PInf = NaN"
| "fdiv PInf NInf = NaN"
| "fdiv NInf PInf = NaN"
| "fdiv NInf NInf = NaN"

text \<open>
  \<^verbatim>\<open>math.log(x, 2)\<close>: a ValueError (math domain error) unless \<open>x\<close> is positive or NaN.
\<close>

fun math_log2 :: "fl \<Rightarrow> error + fl" where
  "math_log2 (Fin x) = (if 0 < x then Inr (Fin (log 2 x)) else Inl ValueError)"
| "math_log2 PInf = Inr PInf"
| "math_log2 NInf = Inl ValueError"
| "math_log2 NaN = Inr NaN"

text \<open>\<^verbatim>\<open>int(x)\<close> of a finite float truncates towards zero.\<close>

definition py_int :: "real \<Rightarrow> int" where
  "py_int x = (if 0 \<le> x then \<lfloor>x\<rfloor> else \<lceil>x\<rceil>)"

text \<open>Summing left to right from \<open>0\<close>; \<^verbatim>\<open>np.sum\<close> of a grid sums all its cells.\<close>

definition fsum :: "fl list \<Rightarrow> fl" where
  "fsum xs = foldl fadd (Fin 0) xs"

definition np_sum :: "fl list list \<Rightarrow> fl" where
  "np_sum grid = fsum (concat grid)"

subsection \<open>Images\<close>

text \<open>
  A single-channel image is the list of its rows, a colour image the list of its rows
  of (red, green, blue) pixels. Pixel values are finite floats. numpy arrays are
  rectangular (\<open>rect\<close>); an array without rows is taken to have no columns.
\<close>

type_synonym image = "real list list"
type_synonym rgb = "real \<times> real \<times> real"
type_synonym rgb_image = "rgb list list"

definition ncols :: "'a list list \<Rightarrow> nat" where
  "ncols img = (case img of [] \<Rightarrow> 0 | row # _ \<Rightarrow> length row)"

definition rect :: "'a list list \<Rightarrow> bool" where
  "rect img = list_all (\<lambda>row. length row = ncols img) img"

subsection \<open>Channel extraction and cropping\<close>

definition extract_red :: "rgb_image \<Rightarrow> image" where
  "extract_red img =
     (let imagecopy = img;
          imagecopy = map (map (\<lambda>(r, g, b). (r, 0 :: real, b))) imagecopy;
          imagecopy = map (map (\<lambda>(r, g, b). (r, g, 0 :: real))) imagecopy;
          red_image = map (map (\<lambda>(r, g, b). r)) imagecopy
      in red_image)"

definition extract_green :: "rgb_image \<Rightarrow> image" where
  "extract_green img =
     (let imagecopy = img;
          imagecopy = map (map (\<lambda>(r, g, b). (0 :: real, g, b))) imagecopy;
          imagecopy = map (map (\<lambda>(r, g, b). (r, g, 0 :: real))) imagecopy;
          green_image = map (map (\<lambda>(r, g, b). g)) imagecopy
      in green_image)"

text \<open>\<^verbatim>\<open>np.delete(arr, obj, 1)\<close>: the array without column \<open>obj\<close>.\<close>

definition np_delete_col :: "image \<Rightarrow> int \<Rightarrow> error + image" where
  "np_delete_col arr obj =
     (case py_index (ncols arr) obj of
        None \<Rightarrow> Inl (index_error obj)
      | Some k \<Rightarrow> Inr (map (\<lambda>row. take k row @ drop (Suc k) row) arr))"

definition crop_step :: "nat \<Rightarrow> image \<Rightarrow> error + image" where
  "crop_step _ green =
     (case np_delete_col green 0 of
        Inl e \<Rightarrow> Inl e
      | Inr green \<Rightarrow> np_delete_col green (- 1))"

definition prepare_image :: "rgb_image \<Rightarrow> error + (image \<times> image)" where
  "prepare_image img =
     (let green = extract_green img;
          red = extract_red img
      in case for_each crop_step [0..<20] green of
           Inl e \<Rightarrow> Inl e
         | Inr green \<Rightarrow> Inr (green, red))"

subsection \<open>The overlap window\<close>

definition overlap_pixel :: "image \<Rightarrow> int \<Rightarrow> nat \<Rightarrow> nat \<Rightarrow> image \<Rightarrow> error + image" where
  "overlap_pixel temp shift i j result =
     (let xmin = (40 - shift) + int j
      in if i < length temp
         then (case py_index (length (temp ! i)) xmin of
                 None \<Rightarrow> Inl (index_error xmin)
               | Some k \<Rightarrow> Inr (result[i := (result ! i)[j := temp ! i ! k]]))
         else Inl (index_error (int i)))"

definition overlap :: "image \<Rightarrow> image \<Rightarrow> int \<Rightarrow> error + image" where
  "overlap ref temp shift =
     (let result = ref;
          dim = (length result, ncols result)
      in for_each (\<lambda>i. for_each (overlap_pixel temp shift i) [0..<snd dim])
           [0..<fst dim] result)"

subsection \<open>Histograms\<close>

text \<open>
  Lines 105 to 111 of \<^verbatim>\<open>marginal_pmf\<close>: the 256-entry table of counts and the number of
  pixels. \<^verbatim>\<open>hist_vals[pix]\<close> is numpy indexing, so a negative \<open>pix\<close> counts from the end
  of the table.
\<close>

definition count_pixel ::
  "real list \<Rightarrow> nat \<Rightarrow> real list \<times> nat \<Rightarrow> error + real list \<times> nat" where
  "count_pixel row i st =
     (case st of (hist_vals, count) \<Rightarrow>
        (let pix = py_int (row ! i)
         in (case py_index (length hist_vals) pix of
               None \<Rightarrow> Inl (index_error pix)
             | Some k \<Rightarrow> Inr (hist_vals[k := hist_vals ! k + 1], count + 1))))"

definition raw_hist :: "image \<Rightarrow> error + real list \<times> nat" where
  "raw_hist img =
     for_each (\<lambda>row. for_each (count_pixel row) [0..<length row]) img
       (replicate 256 0, 0)"

text \<open>
  Lines 112 to 120: one output bin for every \<open>i\<close> of \<^verbatim>\<open>range(0, 255, bin_size)\<close>, the sum
  of \<open>bin_size\<close> consecutive counts from \<open>i\<close> on, divided by the number of pixels. The
  assignment \<^verbatim>\<open>i = i * bin_size\<close> that ends the loop body is overwritten by the next
  iteration and has no effect. The parameter \<open>id0\<close> is not used.
\<close>

definition bin_add :: "real list \<Rightarrow> int \<Rightarrow> nat \<Rightarrow> real \<Rightarrow> error + real" where
  "bin_add hist_vals i j var =
     (case py_index (length hist_vals) (i + int j) of
        None \<Rightarrow> Inl (index_error (i + int j))
      | Some k \<Rightarrow> Inr (var + hist_vals ! k))"

definition bin_step ::
  "real list \<Rightarrow> nat \<Rightarrow> int \<Rightarrow> int \<Rightarrow> fl list \<Rightarrow> error + fl list" where
  "bin_step hist_vals count bin_size i hist_result =
     (case for_each (bin_add hist_vals i) [0..<nat bin_size] 0 of
        Inl e \<Rightarrow> Inl e
      | Inr var \<Rightarrow> Inr (hist_result @ [fdiv (Fin var) (Fin (real count))]))"

definition marginal_pmf :: "image \<Rightarrow> int \<Rightarrow> int \<Rightarrow> error + fl list" where
  "marginal_pmf img bin_size id0 =
     (case raw_hist img of
        Inl e \<Rightarrow> Inl e
      | Inr (hist_vals, count) \<Rightarrow>
          (case range3 0 255 bin_size of
             Inl e \<Rightarrow> Inl e
           | Inr bins \<Rightarrow> for_each (bin_step hist_vals count bin_size) bins []))"

definition joint_pmf :: "fl list \<Rightarrow> fl list \<Rightarrow> fl list list" where
  "joint_pmf x_pmf y_pmf =
     (let nrow = length x_pmf;
          ncol = length y_pmf;
          hist_result = replicate nrow (replicate ncol (Fin 0));
          hist_result =
            fold (\<lambda>i. fold (\<lambda>j h. h[i := (h ! i)[j := fadd (x_pmf ! i) (y_pmf ! j)]])
                    [0..<ncol])
              [0..<nrow] hist_result;
          total = np_sum hist_result
      in map (map (\<lambda>v. fdiv v total)) hist_result)"

subsection \<open>The score and the search\<close>

definition mi_cell ::
  "fl list \<Rightarrow> fl list \<Rightarrow> fl list list \<Rightarrow> nat \<Rightarrow> nat \<Rightarrow> fl \<times> fl list list
     \<Rightarrow> error + fl \<times> fl list list" where
  "mi_cell px py pxy i j st =
     (case st of (mi, visual) \<Rightarrow>
        (let var1 = fmul (px ! i) (py ! j);
             var2 = fdiv (pxy ! i ! j) var1
         in (case math_log2 var2 of
               Inl e \<Rightarrow> Inl e
             | Inr l \<Rightarrow>
                 (let partial = fmul (pxy ! i ! j) l
                  in Inr (fadd mi partial, visual[i := (visual ! i)[j := partial]])))))"

definition mutual_information :: "image \<Rightarrow> image \<Rightarrow> int \<Rightarrow> int \<Rightarrow> error + fl" where
  "mutual_information image1 image2 id0 bin_size =
     (case marginal_pmf image1 bin_size id0 of
        Inl e \<Rightarrow> Inl e
      | Inr px \<Rightarrow>
          (case marginal_pmf image2 bin_size (id0 + 100) of
             Inl e \<Rightarrow> Inl e
           | Inr py \<Rightarrow>
               (let pxy = joint_pmf px py
                in (case for_each (\<lambda>i. for_each (mi_cell px py pxy i) [0..<length py])
                           [0..<length px] (Fin 0, pxy) of
                      Inl e \<Rightarrow> Inl e
                    | Inr (mi, visual) \<Rightarrow> Inr mi))))"

text \<open>
  \<^verbatim>\<open>save\<close> casts the image to 8-bit integers and writes it to a file with \<^verbatim>\<open>io.imsave\<close>.
  The file system is not part of the state; what is kept of the call is whether it
  returns. The cast raises nothing, and \<^verbatim>\<open>io.imsave\<close> raises ValueError for an array
  without columns and returns otherwise (the working directory is taken to be writable).
\<close>

definition save :: "image \<Rightarrow> string \<Rightarrow> error + unit" where
  "save img fname = (if ncols img = 0 then Inl ValueError else Inr ())"

definition registration_step ::
  "image \<Rightarrow> image \<Rightarrow> nat \<Rightarrow> fl list \<Rightarrow> error + fl list" where
  "registration_step reference template i results =
     (case overlap reference template (int i) of
        Inl e \<Rightarrow> Inl e
      | Inr overlappingregion \<Rightarrow>
          (case mutual_information reference overlappingregion (int i) 3 of
             Inl e \<Rightarrow> Inl e
           | Inr MI \<Rightarrow> Inr (results @ [MI])))"

definition registration :: "rgb_image \<Rightarrow> error + fl list" where
  "registration img =
     (case prepare_image img of
        Inl e \<Rightarrow> Inl e
      | Inr (reference, template) \<Rightarrow>
          (case save reference ''ref.png'' of
             Inl e \<Rightarrow> Inl e
           | Inr _ \<Rightarrow>
               (case save template ''temp.png'' of
                  Inl e \<Rightarrow> Inl e
                | Inr _ \<Rightarrow>
                    for_each (registration_step reference template) [0..<41] [])))"

section \<open>Vocabulary of the proofs\<close>

text \<open>The column of \<open>temp\<close> that column \<open>j\<close> of the window reads.\<close>

definition src_col :: "image \<Rightarrow> int \<Rightarrow> nat \<Rightarrow> nat \<Rightarrow> nat" where
  "src_col temp shift i j = the (py_index (length (temp ! i)) ((40 - shift) + int j))"

text \<open>
  How many of the truncated intensities \<open>vs\<close> land in entry \<open>k\<close> of the table: the
  value \<open>k\<close> itself and, through a negative index, the value \<open>k - 256\<close>.
\<close>

definition hits :: "int list \<Rightarrow> nat \<Rightarrow> nat" where
  "hits vs k = length (filter (\<lambda>v. v = int k \<or> v = int k - 256) vs)"

definition add_hits :: "real list \<Rightarrow> int list \<Rightarrow> real list" where
  "add_hits h vs = map (\<lambda>k. h ! k + real (hits vs k)) [0..<length h]"

text \<open>The sum of \<open>n\<close> consecutive entries of the table from \<open>i\<close> on.\<close>

definition bin_total :: "real list \<Rightarrow> int \<Rightarrow> nat \<Rightarrow> real" where
  "bin_total h i n = sum_list (map (\<lambda>j. h ! (nat i + j)) [0..<n])"

text \<open>A bin size all of whose bins stay inside the 256 entries of the table.\<close>

definition bins_fit :: "int \<Rightarrow> bool" where
  "bins_fit b = (0 < b \<and> list_all (\<lambda>i. i + b \<le> 256) (py_range 0 255 b))"


text \<open>
  An entry of a marginal histogram: a non-negative finite value, or NaN (the histogram
  of an image without pixels).
\<close>

definition mass :: "fl \<Rightarrow> bool" where
  "mass v = (case v of Fin r \<Rightarrow> 0 \<le> r | NaN \<Rightarrow> True | _ \<Rightarrow> False)"

text \<open>
  The term that the cell of the marginal entries \<open>a\<close> and \<open>b\<close> adds to the score, \<open>t\<close> being
  the total of the additive grid.
\<close>

definition mi_term :: "fl \<Rightarrow> fl \<Rightarrow> fl \<Rightarrow> error + fl" where
  "mi_term a b t =
     (let pxy = fdiv (fadd a b) t
      in case math_log2 (fdiv pxy (fmul a b)) of
           Inl e \<Rightarrow> Inl e
         | Inr l \<Rightarrow> Inr (fmul pxy l))"

text \<open>
  The invariant of the counting loop: 256 non-negative counts, all of them 0 as long as
  no pixel has been counted.
\<close>

definition hist_ok :: "real list \<times> nat \<Rightarrow> bool" where
  "hist_ok st = (case st of (h, c) \<Rightarrow>
     length h = 256 \<and> list_all (\<lambda>v. 0 \<le> v \<and> (c = 0 \<longrightarrow> v = 0)) h)"

text \<open>The total of the additive grid, by which \<open>joint_pmf\<close> divides.\<close>

definition grid_total :: "fl list \<Rightarrow> fl list \<Rightarrow> fl" where
  "grid_total px py = np_sum (map (\<lambda>a. map (fadd a) py) px)"

section \<open>Loops and indices\<close>

lemma for_each_append:
  "for_each body (xs @ ys) s =
     (case for_each body xs s of Inl e \<Rightarrow> Inl e | Inr s' \<Rightarrow> for_each body ys s')"
  by (induction xs arbitrary: s) (auto split: sum.splits)

lemma for_each_upt_Suc:
  "for_each body [0..<Suc n] s =
     (case for_each body [0..<n] s of Inl e \<Rightarrow> Inl e | Inr s' \<Rightarrow> body n s')"
  by (simp add: for_each_append split: sum.splits)



lemma for_each_inv:
  assumes "I s" and "\<And>x s. x \<in> set xs \<Longrightarrow> I s \<Longrightarrow> \<exists>s'. body x s = Inr s' \<and> I s'"
  shows "\<exists>s'. for_each body xs s = Inr s' \<and> I s'"
  using assms
proof (induction xs arbitrary: s)
  case Nil
  then show ?case by simp
next
  case (Cons x xs)
  from Cons.prems obtain s1 where s1: "body x s = Inr s1" "I s1"
    by (meson list.set_intros(1))
  have "\<exists>s'. for_each body xs s1 = Inr s' \<and> I s'"
    by (rule Cons.IH [OF s1(2)]) (simp add: Cons.prems(2))
  with s1 show ?case by simp
qed

lemma py_index_less: "py_index n k = Some m \<Longrightarrow> m < n"
  by (auto simp: py_index_def split: if_splits)

lemma overlap_pixel_Inr:
  "i < length temp \<Longrightarrow> py_index (length (temp ! i)) ((40 - shift) + int j) \<noteq> None \<Longrightarrow>
   overlap_pixel temp shift i j result =
     Inr (result[i := (result ! i)[j := temp ! i ! src_col temp shift i j]])"
  by (auto simp: overlap_pixel_def src_col_def)




lemma update_prefix_drop:
  assumes "n < length xs"
  shows "(map f [0..<n] @ drop n xs)[n := f n] = map f [0..<Suc n] @ drop (Suc n) xs"
proof -
  have "drop n xs = xs ! n # drop (Suc n) xs"
    using assms by (simp add: Cons_nth_drop_Suc)
  then show ?thesis by (simp add: list_update_append)
qed

lemma overlap_row:
  assumes "i < length temp" "i < length result" "n \<le> length (result ! i)"
    and "\<forall>j<n. py_index (length (temp ! i)) ((40 - shift) + int j) \<noteq> None"
  shows "for_each (overlap_pixel temp shift i) [0..<n] result =
     Inr (result[i := map (\<lambda>j. temp ! i ! src_col temp shift i j) [0..<n]
                        @ drop n (result ! i)])"
  using assms(3,4)
proof (induction n)
  case 0
  then show ?case by simp
next
  case (Suc n)
  have n: "n < length (result ! i)" using Suc.prems by simp
  have "for_each (overlap_pixel temp shift i) [0..<n] result =
     Inr (result[i := map (\<lambda>j. temp ! i ! src_col temp shift i j) [0..<n]
                        @ drop n (result ! i)])"
    using Suc by simp
  moreover have "py_index (length (temp ! i)) ((40 - shift) + int n) \<noteq> None"
    using Suc.prems by simp
  ultimately show ?case
    using assms(1,2) n
      update_prefix_drop [of n "result ! i" "\<lambda>j. temp ! i ! src_col temp shift i j"]
    by (simp add: for_each_upt_Suc overlap_pixel_Inr del: upt_Suc)
qed

lemma overlap_rows:
  assumes "m \<le> length result" "m \<le> length temp"
    and "\<forall>i<m. length (result ! i) = w"
    and "\<forall>i<m. \<forall>j<w. py_index (length (temp ! i)) ((40 - shift) + int j) \<noteq> None"
  shows "for_each (\<lambda>i. for_each (overlap_pixel temp shift i) [0..<w]) [0..<m] result =
     Inr (map (\<lambda>i. map (\<lambda>j. temp ! i ! src_col temp shift i j) [0..<w]) [0..<m]
            @ drop m result)"
  using assms
proof (induction m)
  case 0
  then show ?case by simp
next
  case (Suc m)
  let ?new = "\<lambda>i. map (\<lambda>j. temp ! i ! src_col temp shift i j) [0..<w]"
  let ?r = "map ?new [0..<m] @ drop m result"
  have IH: "for_each (\<lambda>i. for_each (overlap_pixel temp shift i) [0..<w]) [0..<m] result = Inr ?r"
    using Suc by simp
  have m: "m < length result" "m < length temp" using Suc.prems by simp_all
  have rm: "?r ! m = result ! m" using m by (simp add: nth_append)
  have row: "for_each (overlap_pixel temp shift m) [0..<w] ?r =
      Inr (?r[m := ?new m @ drop w (?r ! m)])"
    using m Suc.prems by (intro overlap_row) (simp_all add: rm)
  have "?r[m := ?new m @ drop w (?r ! m)] = map ?new [0..<Suc m] @ drop (Suc m) result"
    using m Suc.prems(3) update_prefix_drop [of m result ?new] by (simp add: rm)
  with IH row show ?case
    by (simp only: for_each_upt_Suc sum.case)
qed

lemma rect_nth: "rect img \<Longrightarrow> i < length img \<Longrightarrow> length (img ! i) = ncols img"
  by (simp add: rect_def list_all_length)

lemma overlap_Inr:
  assumes "rect ref" "rect temp" "length ref \<le> length temp"
    and "\<forall>j<ncols ref. py_index (ncols temp) ((40 - shift) + int j) \<noteq> None"
  shows "overlap ref temp shift =
     Inr (map (\<lambda>i. map (\<lambda>j. temp ! i ! the (py_index (ncols temp) ((40 - shift) + int j)))
                 [0..<ncols ref]) [0..<length ref])"
proof -
  have len: "\<forall>i<length ref. length (temp ! i) = ncols temp"
    using assms(2,3) by (simp add: rect_nth)
  have "overlap ref temp shift =
     Inr (map (\<lambda>i. map (\<lambda>j. temp ! i ! src_col temp shift i j) [0..<ncols ref])
            [0..<length ref] @ drop (length ref) ref)"
    unfolding overlap_def Let_def fst_conv snd_conv
    using assms len by (intro overlap_rows) (simp_all add: rect_nth)
  then show ?thesis using len by (simp add: src_col_def)
qed




section \<open>The overlap window\<close>

text \<open>
  Claim C2. For rectangular images \<open>ref\<close> and \<open>temp\<close>, \<open>temp\<close> with at least the rows of
  \<open>ref\<close> and at least 40 columns more, and a shift from 0 to 40, \<open>overlap\<close> returns an
  array of the dimensions of \<open>ref\<close> whose pixel in row \<open>i\<close> and column \<open>j\<close> is
  \<open>temp[i][(40 - shift) + j]\<close>: shift 0 reads from column 40 on, shift 40 from column 0.
\<close>

theorem overlap_window:
  assumes "rect ref" "rect temp" "length ref \<le> length temp"
    and "0 \<le> shift" "shift \<le> 40" "ncols ref + 40 \<le> ncols temp"
  shows "\<exists>result. overlap ref temp shift = Inr result \<and> length result = length ref \<and>
           (\<forall>i<length ref. length (result ! i) = ncols ref \<and>
              (\<forall>j<ncols ref. result ! i ! j = temp ! i ! (nat (40 - shift) + j)))"
proof -
  have idx: "py_index (ncols temp) ((40 - shift) + int j) = Some (nat (40 - shift) + j)"
    if "j < ncols ref" for j
    using that assms(4-6) by (simp add: py_index_def nat_add_distrib)
  then have "overlap ref temp shift =
     Inr (map (\<lambda>i. map (\<lambda>j. temp ! i ! the (py_index (ncols temp) ((40 - shift) + int j)))
                 [0..<ncols ref]) [0..<length ref])"
    using assms(1-3) by (intro overlap_Inr) simp_all
  then show ?thesis using idx by simp
qed

theorem overlap_window_witness:
  "rect [[1, 2 :: real]] \<and> rect [map real [0..<42]] \<and>
   (\<exists>result. overlap [[1, 2]] [map real [0..<42]] 3 = Inr result \<and> length result = 1 \<and>
      length (result ! 0) = 2 \<and> result ! 0 ! 0 = 37 \<and> result ! 0 ! 1 = 38)"
proof -
  have pre: "rect [[1, 2 :: real]]" "rect [map real [0..<42]]"
    "length [[1, 2 :: real]] \<le> length [map real [0..<42]]" "(0::int) \<le> 3" "(3::int) \<le> 40"
    "ncols [[1, 2 :: real]] + 40 \<le> ncols [map real [0..<42]]"
    by (simp_all add: rect_def ncols_def)
  from overlap_window [OF pre] obtain result where
    r: "overlap [[1, 2]] [map real [0..<42]] 3 = Inr result"
      "length result = length [[1, 2 :: real]]"
      "\<forall>i<length [[1, 2 :: real]]. length (result ! i) = ncols [[1, 2 :: real]] \<and>
         (\<forall>j<ncols [[1, 2 :: real]].
            result ! i ! j = [map real [0..<42]] ! i ! (nat (40 - 3) + j))"
    by blast
  from r(3) have "length (result ! 0) = 2" "result ! 0 ! 0 = 37" "result ! 0 ! 1 = 38"
    by (simp_all add: ncols_def)
  with r(1,2) pre(1,2) show ?thesis by simp
qed




text \<open>
  Beyond the 64-bit index type the failure is an OverflowError: the bound on the columns
  in the second part of the amended claim is needed.
\<close>

lemma overlap_overflow:
  "overlap [[1, 2]] [[7, 8, 9]] (- (10 ^ 19)) = Inl OverflowError"
  by (simp add: overlap_def overlap_pixel_def ncols_def py_index_def index_error_def)

section \<open>Preparing the two channel images\<close>

lemma ncols_hd: "img \<noteq> [] \<Longrightarrow> ncols img = length (hd img)"
  by (cases img) (simp_all add: ncols_def)

lemma rect_set: "rect img \<Longrightarrow> row \<in> set img \<Longrightarrow> length row = ncols img"
  by (simp add: rect_def list_all_iff)

lemma extract_green_eq: "extract_green img = map (map (\<lambda>(r, g, b). g)) img"
  by (simp add: extract_green_def Let_def comp_def case_prod_unfold)

lemma extract_red_eq: "extract_red img = map (map (\<lambda>(r, g, b). r)) img"
  by (simp add: extract_red_def Let_def comp_def case_prod_unfold)

lemma np_delete_col_first:
  assumes "arr \<noteq> []" "\<forall>row\<in>set arr. length row = n" "1 \<le> n"
  shows "np_delete_col arr 0 = Inr (map (drop 1) arr)"
proof -
  have "ncols arr = n" using assms(1,2) by (simp add: ncols_hd)
  then show ?thesis using assms(3) by (simp add: np_delete_col_def py_index_def)
qed

lemma np_delete_col_last:
  assumes "arr \<noteq> []" "\<forall>row\<in>set arr. length row = n" "1 \<le> n"
  shows "np_delete_col arr (- 1) = Inr (map (take (n - 1)) arr)"
proof -
  have "ncols arr = n" using assms(1,2) by (simp add: ncols_hd)
  moreover have "nat (int n - 1) = n - 1" by simp
  ultimately show ?thesis using assms(2,3) by (simp add: np_delete_col_def py_index_def)
qed

lemma crop_step_Inr:
  assumes "green \<noteq> []" "\<forall>row\<in>set green. length row = n" "2 \<le> n"
  shows "crop_step k green = Inr (map (\<lambda>row. take (n - 2) (drop 1 row)) green)"
proof -
  have first: "np_delete_col green 0 = Inr (map (drop 1) green)"
    using assms by (intro np_delete_col_first [where n = n]) simp_all
  have "np_delete_col (map (drop 1) green) (- 1) =
      Inr (map (take (n - 1 - 1)) (map (drop 1) green))"
    using assms by (intro np_delete_col_last) simp_all
  then show ?thesis
    unfolding crop_step_def using first by (simp add: comp_def numeral_2_eq_2)
qed

lemma crop_loop:
  assumes "green \<noteq> []" "\<forall>row\<in>set green. length row = n" "2 * k \<le> n"
  shows "for_each crop_step [0..<k] green =
     Inr (map (\<lambda>row. take (n - 2 * k) (drop k row)) green)"
  using assms(3)
proof (induction k)
  case 0
  then show ?case using assms(2) by (simp add: map_idI)
next
  case (Suc k)
  let ?g = "map (\<lambda>row. take (n - 2 * k) (drop k row)) green"
  have IH: "for_each crop_step [0..<k] green = Inr ?g" using Suc by simp
  have "crop_step k ?g = Inr (map (\<lambda>row. take (n - 2 * k - 2) (drop 1 row)) ?g)"
    using assms(1,2) Suc.prems by (intro crop_step_Inr) auto
  moreover have "map (\<lambda>row. take (n - 2 * k - 2) (drop 1 row)) ?g =
      map (\<lambda>row. take (n - 2 * Suc k) (drop (Suc k) row)) green"
    by (simp add: drop_take)
  ultimately show ?case using IH by (simp only: for_each_upt_Suc sum.case)
qed

lemma prepare_image_Inr:
  assumes "rect img" "40 \<le> ncols img"
  shows "prepare_image img =
     Inr (map (\<lambda>row. take (ncols img - 40) (drop 20 (map (\<lambda>(r, g, b). g) row))) img,
          map (map (\<lambda>(r, g, b). r)) img)"
proof -
  have ne: "img \<noteq> []" using assms(2) by (auto simp: ncols_def)
  have "for_each crop_step [0..<20] (extract_green img) =
     Inr (map (\<lambda>row. take (ncols img - 2 * 20) (drop 20 row)) (extract_green img))"
    using assms ne by (intro crop_loop) (auto simp: extract_green_eq dest: rect_set)
  then show ?thesis
    by (simp add: prepare_image_def Let_def extract_red_eq) (simp add: extract_green_eq)
qed

text \<open>
  Claim C8. For a rectangular colour image of width \<open>W\<close>, at least 40, \<open>prepare_image\<close>
  returns as reference the green channel without its first 20 and its last 20 columns,
  of width \<open>W - 40\<close>, and as comparison image the red channel at its full width \<open>W\<close>.
\<close>

theorem prepare_image_crops:
  assumes "rect img" "40 \<le> ncols img"
  shows "\<exists>reference comparison. prepare_image img = Inr (reference, comparison) \<and>
     reference = map (\<lambda>row. take (ncols img - 40) (drop 20 (map (\<lambda>(r, g, b). g) row))) img \<and>
     comparison = map (map (\<lambda>(r, g, b). r)) img \<and>
     rect reference \<and> rect comparison \<and>
     ncols reference = ncols img - 40 \<and> ncols comparison = ncols img"
proof -
  have ne: "img \<noteq> []" using assms(2) by (auto simp: ncols_def)
  have len: "\<forall>row\<in>set img. length row = ncols img" using assms(1) by (auto dest: rect_set)
  let ?ref = "map (\<lambda>row. take (ncols img - 40) (drop 20 (map (\<lambda>(r, g, b). g) row))) img"
  let ?cmp = "map (map (\<lambda>(r, g, b). r)) img"
  have "ncols ?ref = ncols img - 40" "ncols ?cmp = ncols img"
    using ne assms(2) by (simp_all add: ncols_hd hd_map)
  moreover from this have "rect ?ref" "rect ?cmp"
    using len assms(2) by (auto simp: rect_def list_all_iff)
  ultimately show ?thesis using prepare_image_Inr [OF assms] by simp
qed

theorem prepare_image_crops_witness:
  "rect [map (\<lambda>i. (real i, 100 + real i, 7 :: real)) [0..<42]] \<and>
   prepare_image [map (\<lambda>i. (real i, 100 + real i, 7)) [0..<42]] =
     Inr ([[120, 121]], [map real [0..<42]])"
proof -
  let ?img = "[map (\<lambda>i. (real i, 100 + real i, 7 :: real)) [0..<42]]"
  have pre: "rect ?img" "40 \<le> ncols ?img" by (simp_all add: rect_def ncols_def)
  have "take 2 (drop 20 (map (\<lambda>i. 100 + real i) [0..<42])) = [120, 121]"
    by (simp add: drop_map take_map)
  with prepare_image_crops [OF pre] pre(1) show ?thesis
    by (simp add: ncols_def comp_def)
qed

section \<open>The histogram\<close>

lemma hits_Nil [simp]: "hits [] k = 0"
  by (simp add: hits_def)

lemma hits_append: "hits (vs @ ws) k = hits vs k + hits ws k"
  by (simp add: hits_def)

lemma hits_snoc:
  assumes "py_index 256 v = Some k" "k' < 256"
  shows "hits (vs @ [v]) k' = (if k' = k then hits vs k' + 1 else hits vs k')"
  using assms by (auto simp: hits_def py_index_def split: if_splits)

lemma length_add_hits [simp]: "length (add_hits h vs) = length h"
  by (simp add: add_hits_def)

lemma add_hits_Nil [simp]: "add_hits h [] = h"
  by (simp add: add_hits_def map_nth)

lemma add_hits_append: "add_hits (add_hits h vs) ws = add_hits h (vs @ ws)"
  by (simp add: add_hits_def hits_append)

lemma add_hits_snoc:
  assumes "length h = 256" "py_index 256 v = Some k"
  shows "(add_hits h vs)[k := add_hits h vs ! k + 1] = add_hits h (vs @ [v])"
proof (rule nth_equalityI)
  show "length ((add_hits h vs)[k := add_hits h vs ! k + 1]) = length (add_hits h (vs @ [v]))"
    by simp
next
  fix i assume "i < length ((add_hits h vs)[k := add_hits h vs ! k + 1])"
  then have i: "i < 256" using assms(1) by simp
  have k: "k < 256" using assms(2) by (rule py_index_less)
  show "(add_hits h vs)[k := add_hits h vs ! k + 1] ! i = add_hits h (vs @ [v]) ! i"
    using i k assms(1) hits_snoc [OF assms(2) i, of vs]
    by (simp add: add_hits_def nth_list_update)
qed

lemma count_pixel_Inr:
  assumes "length h = 256" "py_index 256 (py_int (row ! i)) \<noteq> None"
  shows "count_pixel row i (add_hits h vs, c) =
     Inr (add_hits h (vs @ [py_int (row ! i)]), c + 1)"
  using assms by (auto simp: count_pixel_def add_hits_snoc)

lemma count_row:
  assumes "length h = 256" "n \<le> length row"
    and "\<forall>p\<in>set (take n row). py_index 256 (py_int p) \<noteq> None"
  shows "for_each (count_pixel row) [0..<n] (h, c) =
     Inr (add_hits h (map py_int (take n row)), c + n)"
  using assms(2,3)
proof (induction n)
  case 0
  then show ?case by simp
next
  case (Suc n)
  have n: "n < length row" using Suc.prems by simp
  then have tk: "take (Suc n) row = take n row @ [row ! n]"
    by (simp add: take_Suc_conv_app_nth)
  have IH: "for_each (count_pixel row) [0..<n] (h, c) =
     Inr (add_hits h (map py_int (take n row)), c + n)"
    using Suc.prems n by (intro Suc.IH) (auto simp: tk)
  have "py_index 256 (py_int (row ! n)) \<noteq> None"
    using Suc.prems(2) by (simp add: tk)
  then show ?case
    using IH assms(1) by (simp add: for_each_upt_Suc count_pixel_Inr tk del: upt_Suc)
qed

lemma count_rows:
  assumes "length h = 256"
    and "\<forall>p\<in>set (concat img). py_index 256 (py_int p) \<noteq> None"
  shows "for_each (\<lambda>row. for_each (count_pixel row) [0..<length row]) img (h, c) =
     Inr (add_hits h (map py_int (concat img)), c + length (concat img))"
  using assms
proof (induction img arbitrary: h c)
  case Nil
  then show ?case by simp
next
  case (Cons row img)
  have "for_each (count_pixel row) [0..<length row] (h, c) =
     Inr (add_hits h (map py_int (take (length row) row)), c + length row)"
    using Cons.prems by (intro count_row) auto
  moreover have "for_each (\<lambda>row. for_each (count_pixel row) [0..<length row]) img
       (add_hits h (map py_int row), c + length row) =
     Inr (add_hits (add_hits h (map py_int row)) (map py_int (concat img)),
          c + length row + length (concat img))"
    using Cons.prems by (intro Cons.IH) auto
  ultimately show ?case by (simp add: add_hits_append add.assoc)
qed

lemma raw_hist_Inr:
  assumes "\<forall>p\<in>set (concat img). py_index 256 (py_int p) \<noteq> None"
  shows "raw_hist img =
     Inr (map (\<lambda>k. real (hits (map py_int (concat img)) k)) [0..<256], length (concat img))"
proof -
  have "raw_hist img =
     Inr (add_hits (replicate 256 0) (map py_int (concat img)), 0 + length (concat img))"
    unfolding raw_hist_def using assms by (intro count_rows) simp_all
  moreover have "add_hits (replicate 256 0) vs = map (\<lambda>k. real (hits vs k)) [0..<256]" for vs
    by (simp add: add_hits_def)
  ultimately show ?thesis by simp
qed

lemma py_range_Cons:
  "0 < step \<Longrightarrow> start < stop \<Longrightarrow>
   py_range start stop step = start # py_range (start + step) stop step"
  by (subst py_range.simps) simp

lemma py_range_Nil: "0 < step \<Longrightarrow> stop \<le> start \<Longrightarrow> py_range start stop step = []"
  by (subst py_range.simps) simp

lemma py_range_pos:
  "0 < step \<Longrightarrow> i \<in> set (py_range start stop step) \<Longrightarrow>
   start \<le> i \<and> i < stop \<and> step dvd (i - start)"
proof (induction start stop step rule: py_range.induct)
  case (1 start stop step)
  show ?case
  proof (cases "start < stop")
    case True
    with "1.prems" have "i = start \<or> i \<in> set (py_range (start + step) stop step)"
      by (simp add: py_range_Cons)
    then show ?thesis
    proof
      assume "i = start"
      with True show ?thesis by simp
    next
      assume "i \<in> set (py_range (start + step) stop step)"
      then have *: "start + step \<le> i \<and> i < stop \<and> step dvd (i - (start + step))"
        using "1.IH"(1) "1.prems"(1) True by simp
      have "i - start = (i - (start + step)) + step" by simp
      then have "step dvd (i - start)" using * by (metis dvd_add_triv_right_iff)
      with * show ?thesis using "1.prems"(1) by simp
    qed
  next
    case False
    with "1.prems" show ?thesis by (simp add: py_range_Nil)
  qed
qed

lemma bin_add_Inr:
  "0 \<le> i \<Longrightarrow> nat i + j < length h \<Longrightarrow> bin_add h i j var = Inr (var + h ! (nat i + j))"
  by (simp add: bin_add_def py_index_def nat_add_distrib)

lemma bin_loop:
  assumes "0 \<le> i" "nat i + n \<le> length h"
  shows "for_each (bin_add h i) [0..<n] var = Inr (var + bin_total h i n)"
  using assms(2)
proof (induction n)
  case 0
  then show ?case by (simp add: bin_total_def)
next
  case (Suc n)
  then have "for_each (bin_add h i) [0..<n] var = Inr (var + bin_total h i n)" by simp
  moreover have "bin_add h i n (var + bin_total h i n) =
      Inr (var + bin_total h i n + h ! (nat i + n))"
    using assms(1) Suc.prems by (intro bin_add_Inr) simp_all
  moreover have "bin_total h i (Suc n) = bin_total h i n + h ! (nat i + n)"
    by (simp add: bin_total_def)
  ultimately show ?case by (simp add: for_each_upt_Suc del: upt_Suc)
qed

lemma bin_step_Inr:
  assumes "0 \<le> i" "i + b \<le> int (length h)" "0 < b"
  shows "bin_step h c b i acc =
     Inr (acc @ [fdiv (Fin (bin_total h i (nat b))) (Fin (real c))])"
proof -
  have "nat i + nat b \<le> length h" using assms by linarith
  then show ?thesis using assms(1) by (simp add: bin_step_def bin_loop)
qed

lemma bins_loop:
  assumes "0 < b" "\<forall>i\<in>set bins. 0 \<le> i \<and> i + b \<le> int (length h)"
  shows "for_each (bin_step h c b) bins acc =
     Inr (acc @ map (\<lambda>i. fdiv (Fin (bin_total h i (nat b))) (Fin (real c))) bins)"
  using assms(2)
proof (induction bins arbitrary: acc)
  case Nil
  then show ?case by simp
next
  case (Cons i bins)
  then show ?case using assms(1) by (simp add: bin_step_Inr)
qed

lemma marginal_pmf_Inr:
  assumes "\<forall>p\<in>set (concat img). py_index 256 (py_int p) \<noteq> None" "bins_fit b"
  shows "marginal_pmf img b id0 =
     Inr (map (\<lambda>i. fdiv (Fin (bin_total (map (\<lambda>k. real (hits (map py_int (concat img)) k))
                                        [0..<256]) i (nat b)))
                      (Fin (real (length (concat img)))))
            (py_range 0 255 b))"
proof -
  define h where "h = map (\<lambda>k. real (hits (map py_int (concat img)) k)) [0..<256]"
  have lh: "length h = 256" by (simp add: h_def)
  have b: "0 < b" using assms(2) by (simp add: bins_fit_def)
  have "\<forall>i\<in>set (py_range 0 255 b). 0 \<le> i \<and> i + b \<le> int (length h)"
  proof
    fix i assume i: "i \<in> set (py_range 0 255 b)"
    then have "0 \<le> i" using py_range_pos [OF b i] by simp
    moreover have "i + b \<le> 256" using assms(2) i by (simp add: bins_fit_def list_all_iff)
    ultimately show "0 \<le> i \<and> i + b \<le> int (length h)" by (simp add: lh)
  qed
  then have "for_each (bin_step h (length (concat img)) b) (py_range 0 255 b) [] =
     Inr ([] @ map (\<lambda>i. fdiv (Fin (bin_total h i (nat b))) (Fin (real (length (concat img)))))
            (py_range 0 255 b))"
    using b by (intro bins_loop)
  moreover have "raw_hist img = Inr (h, length (concat img))"
    unfolding h_def by (rule raw_hist_Inr [OF assms(1)])
  moreover have "range3 0 255 b = Inr (py_range 0 255 b)"
    using b by (simp add: range3_def)
  ultimately have "marginal_pmf img b id0 =
     Inr (map (\<lambda>i. fdiv (Fin (bin_total h i (nat b))) (Fin (real (length (concat img)))))
            (py_range 0 255 b))"
    by (simp only: marginal_pmf_def sum.case prod.case append_Nil)
  then show ?thesis unfolding h_def .
qed

lemma next_multiple:
  fixes b :: int
  assumes "0 < b" "b dvd i" "b dvd n" "i < n"
  shows "i + b \<le> n"
proof -
  from assms(2) obtain q where q: "i = b * q" ..
  from assms(3) obtain m where m: "n = b * m" ..
  have "b * q < b * m" using assms(4) by (simp only: q m)
  then have "q < m" using assms(1) by (simp only: mult_less_cancel_left_pos)
  then have "q + 1 \<le> m" by simp
  then have "b * (q + 1) \<le> b * m" using assms(1) by (intro mult_left_mono) simp_all
  moreover have "b * (q + 1) = i + b" by (simp only: q distrib_left mult_1_right)
  ultimately show ?thesis by (simp only: m)
qed

lemma bins_fit_dvd:
  assumes "0 < b" "b dvd 255 \<or> b dvd 256"
  shows "bins_fit b"
proof -
  have "i + b \<le> 256" if "i \<in> set (py_range 0 255 b)" for i
  proof -
    from py_range_pos [OF assms(1) that] have i: "i < 255" "b dvd i" by simp_all
    from assms(2) show ?thesis
    proof
      assume "b dvd 255"
      then have "i + b \<le> 255" using assms(1) i by (intro next_multiple)
      then show ?thesis by simp
    next
      assume "b dvd 256"
      moreover have "i < 256" using i(1) by simp
      ultimately show ?thesis using assms(1) i(2) by (intro next_multiple)
    qed
  qed
  then show ?thesis using assms(1) by (simp add: bins_fit_def list_all_iff)
qed

lemma bins_fit_3: "bins_fit 3" by (rule bins_fit_dvd) simp_all
lemma bins_fit_255: "bins_fit 255" by (rule bins_fit_dvd) simp_all
lemma bins_fit_256: "bins_fit 256" by (rule bins_fit_dvd) simp_all

lemma py_int_of_int [simp]: "py_int (of_int n) = n"
  by (simp add: py_int_def)

lemma py_int_numeral [simp]:
  "py_int 0 = 0" "py_int 1 = 1" "py_int (- 1) = - 1"
  "py_int (numeral n) = numeral n" "py_int (- numeral n) = - numeral n"
  using py_int_of_int [of 0] py_int_of_int [of 1] py_int_of_int [of "- 1"]
    py_int_of_int [of "numeral n"] py_int_of_int [of "- numeral n"]
  by simp_all

lemma pixel_index_ok:
  "- 256 \<le> py_int p \<Longrightarrow> py_int p \<le> 255 \<Longrightarrow> py_index 256 (py_int p) \<noteq> None"
  by (simp add: py_index_def)

text \<open>
  Claim C9. On an image whose truncated intensities are all from 0 to 255, \<open>marginal_pmf\<close>
  returns for the bin sizes 255 and 256: no read of the 256-entry table is out of range.
\<close>

theorem marginal_pmf_bin_255_256:
  assumes "\<forall>p\<in>set (concat img). 0 \<le> py_int p \<and> py_int p \<le> 255"
  shows "(\<exists>r. marginal_pmf img 255 id0 = Inr r) \<and> (\<exists>r. marginal_pmf img 256 id0 = Inr r)"
proof -
  have ok: "\<forall>p\<in>set (concat img). py_index 256 (py_int p) \<noteq> None"
  proof
    fix p assume "p \<in> set (concat img)"
    with assms have "0 \<le> py_int p" "py_int p \<le> 255" by blast+
    then show "py_index 256 (py_int p) \<noteq> None" by (intro pixel_index_ok) simp_all
  qed
  show ?thesis
    using marginal_pmf_Inr [OF ok bins_fit_255] marginal_pmf_Inr [OF ok bins_fit_256]
    by simp
qed

lemma sum_list_zero: "(\<forall>x\<in>set xs. f x = 0) \<Longrightarrow> sum_list (map f xs) = (0::real)"
  by (induction xs) auto

lemma bin_total_zero:
  assumes "\<forall>j<n. h ! (nat i + j) = 0"
  shows "bin_total h i n = 0"
  unfolding bin_total_def using assms by (intro sum_list_zero) simp

theorem marginal_pmf_bin_255_256_witness:
  "(\<exists>r. marginal_pmf [[0, 255]] 255 0 = Inr r) \<and> (\<exists>r. marginal_pmf [[0, 255]] 256 0 = Inr r)"
  using marginal_pmf_bin_255_256 [of "[[0, 255]]" 0] by simp

lemma hits_filter:
  "hits (map py_int ps) k =
     length (filter (\<lambda>p. py_int p = int k \<or> py_int p = int k - 256) ps)"
  by (simp add: hits_def filter_map comp_def)

lemma bin_total_hits:
  assumes "0 \<le> i" "i + int n \<le> 256"
  shows "bin_total (map (\<lambda>k. real (hits (map py_int ps) k)) [0..<256]) i n =
     sum_list (map (\<lambda>j. real (length (filter
        (\<lambda>p. py_int p = int (nat i + j) \<or> py_int p = int (nat i + j) - 256) ps))) [0..<n])"
proof -
  have "map (\<lambda>k. real (hits (map py_int ps) k)) [0..<256] ! (nat i + j) =
      real (length (filter
        (\<lambda>p. py_int p = int (nat i + j) \<or> py_int p = int (nat i + j) - 256) ps))"
    if "j \<in> set [0..<n]" for j
  proof -
    have "nat i + j < 256" using assms that by simp
    then show ?thesis by (simp add: hits_filter del: upt_rec_numeral)
  qed
  then show ?thesis unfolding bin_total_def by (intro arg_cong [of _ _ sum_list] map_cong refl)
qed

text \<open>
  Claim C10. When every truncated intensity is from -256 to 255, \<open>marginal_pmf\<close> does not
  fail. Entry \<open>k\<close> of the raw table counts the pixels of intensity \<open>k\<close> and those of
  intensity \<open>k - 256\<close>, so a pixel of negative intensity \<open>v\<close> is counted in entry
  \<open>256 + v\<close>, and the pixel count is that of all pixels. For every bin size that divides
  255 or 256, \<open>marginal_pmf\<close> returns, for each bin start \<open>i\<close> of
  \<^verbatim>\<open>range(0, 255, bin_size)\<close>, the sum of the entries \<open>i, ..., i + bin_size - 1\<close> of that
  table divided by the count of all pixels.
\<close>

theorem negative_pixels_wrap:
  assumes "\<forall>p\<in>set (concat img). - 256 \<le> py_int p \<and> py_int p \<le> 255"
  shows "raw_hist img =
     Inr (map (\<lambda>k. real (length (filter (\<lambda>p. py_int p = int k \<or> py_int p = int k - 256)
                                      (concat img)))) [0..<256],
          length (concat img)) \<and>
     (\<forall>bin_size id0. 0 < bin_size \<and> (bin_size dvd 255 \<or> bin_size dvd 256) \<longrightarrow>
        marginal_pmf img bin_size id0 =
          Inr (map (\<lambda>i. fdiv
                 (Fin (sum_list (map (\<lambda>j. real (length (filter
                    (\<lambda>p. py_int p = int (nat i + j) \<or> py_int p = int (nat i + j) - 256)
                    (concat img)))) [0..<nat bin_size])))
                 (Fin (real (length (concat img)))))
               (py_range 0 255 bin_size)))"
proof -
  have ok: "\<forall>p\<in>set (concat img). py_index 256 (py_int p) \<noteq> None"
  proof
    fix p assume "p \<in> set (concat img)"
    with assms have "- 256 \<le> py_int p" "py_int p \<le> 255" by blast+
    then show "py_index 256 (py_int p) \<noteq> None" by (rule pixel_index_ok)
  qed
  have "raw_hist img =
     Inr (map (\<lambda>k. real (hits (map py_int (concat img)) k)) [0..<256], length (concat img))"
    by (rule raw_hist_Inr [OF ok])
  then have raw: "raw_hist img =
     Inr (map (\<lambda>k. real (length (filter (\<lambda>p. py_int p = int k \<or> py_int p = int k - 256)
                                      (concat img)))) [0..<256],
          length (concat img))"
    by (simp only: hits_filter)
  have "marginal_pmf img b id0 =
      Inr (map (\<lambda>i. fdiv
             (Fin (sum_list (map (\<lambda>j. real (length (filter
                (\<lambda>p. py_int p = int (nat i + j) \<or> py_int p = int (nat i + j) - 256)
                (concat img)))) [0..<nat b])))
             (Fin (real (length (concat img)))))
           (py_range 0 255 b))"
    if b: "0 < b \<and> (b dvd 255 \<or> b dvd 256)" for b id0
  proof -
    from b have pos: "0 < b" and dv: "b dvd 255 \<or> b dvd 256" by simp_all
    have fit: "bins_fit b" using pos dv by (rule bins_fit_dvd)
    have "bin_total (map (\<lambda>k. real (hits (map py_int (concat img)) k)) [0..<256]) i (nat b) =
        sum_list (map (\<lambda>j. real (length (filter
          (\<lambda>p. py_int p = int (nat i + j) \<or> py_int p = int (nat i + j) - 256)
          (concat img)))) [0..<nat b])"
      if "i \<in> set (py_range 0 255 b)" for i
    proof -
      from py_range_pos [OF pos that] have "0 \<le> i" by simp
      moreover from fit that have "i + b \<le> 256" by (simp add: bins_fit_def list_all_iff)
      then have "i + int (nat b) \<le> 256" using pos by simp
      ultimately show ?thesis by (rule bin_total_hits)
    qed
    then have "map (\<lambda>i. fdiv
          (Fin (bin_total (map (\<lambda>k. real (hits (map py_int (concat img)) k)) [0..<256])
             i (nat b)))
          (Fin (real (length (concat img))))) (py_range 0 255 b) =
        map (\<lambda>i. fdiv
          (Fin (sum_list (map (\<lambda>j. real (length (filter
             (\<lambda>p. py_int p = int (nat i + j) \<or> py_int p = int (nat i + j) - 256)
             (concat img)))) [0..<nat b])))
          (Fin (real (length (concat img))))) (py_range 0 255 b)"
      by (intro map_cong refl) (simp only:)
    with marginal_pmf_Inr [OF ok fit, of id0] show ?thesis by (simp only:)
  qed
  with raw show ?thesis by blast
qed

theorem negative_pixels_wrap_witness:
  "(\<exists>h. raw_hist [[- 1, 255, 3]] = Inr (h, 3) \<and> h ! 255 = 2 \<and> h ! 3 = 1 \<and> h ! 0 = 0) \<and>
   marginal_pmf [[- 1, 255, 3]] 128 0 = Inr [Fin (1 / 3), Fin (2 / 3)]"
proof -
  let ?img = "[[- 1, 255, 3 :: real]]"
  let ?h = "map (\<lambda>k. real (length (filter (\<lambda>p. py_int p = int k \<or> py_int p = int k - 256)
                                      (concat ?img)))) [0..<256]"
  have pre: "\<forall>p\<in>set (concat ?img). - 256 \<le> py_int p \<and> py_int p \<le> 255"
    by simp
  note wrap = negative_pixels_wrap [OF pre]
  have "?h ! 255 = 2" "?h ! 3 = 1" "?h ! 0 = 0"
    by (simp_all del: upt_rec_numeral)
  moreover have "raw_hist ?img = Inr (?h, 3)"
    using wrap by simp
  ultimately have raw: "\<exists>h. raw_hist ?img = Inr (h, 3) \<and> h ! 255 = 2 \<and> h ! 3 = 1 \<and> h ! 0 = 0"
    by blast
  have bins: "py_range 0 255 128 = [0, 128]"
    by (simp add: py_range_Cons py_range_Nil)
  have "marginal_pmf ?img 128 0 =
      Inr (map (\<lambda>i. fdiv
             (Fin (sum_list (map (\<lambda>j. real (length (filter
                (\<lambda>p. py_int p = int (nat i + j) \<or> py_int p = int (nat i + j) - 256)
                (concat ?img)))) [0..<nat 128])))
             (Fin (real (length (concat ?img)))))
           (py_range 0 255 128))"
    using wrap by simp
  also have "\<dots> = Inr [Fin (1 / 3), Fin (2 / 3)]"
    by (simp add: bins upt_rec [of "0 :: nat"] upt_rec [of "Suc n" for n])
  finally show ?thesis using raw by simp
qed

lemma bin_step_length:
  "bin_step h c b i acc = Inr r \<Longrightarrow> length r = Suc (length acc)"
  by (cases "for_each (bin_add h i) [0..<nat b] 0") (auto simp: bin_step_def)

lemma bins_length:
  "for_each (bin_step h c b) bins acc = Inr r \<Longrightarrow> length r = length acc + length bins"
proof (induction bins arbitrary: acc)
  case Nil
  then show ?case by simp
next
  case (Cons i bins)
  show ?case
  proof (cases "bin_step h c b i acc")
    case (Inl e)
    with Cons.prems show ?thesis by simp
  next
    case (Inr acc')
    with Cons.prems have "for_each (bin_step h c b) bins acc' = Inr r" by simp
    then have "length r = length acc' + length bins" by (rule Cons.IH)
    with bin_step_length [OF Inr] show ?thesis by simp
  qed
qed

lemma marginal_pmf_bins:
  assumes "marginal_pmf img b id0 = Inr r"
  shows "b \<noteq> 0 \<and> length r = length (py_range 0 255 b)"
proof (cases "raw_hist img")
  case (Inl e)
  with assms show ?thesis by (simp add: marginal_pmf_def)
next
  case (Inr hc)
  obtain h c where hc: "hc = (h, c)" by (cases hc)
  show ?thesis
  proof (cases "b = 0")
    case True
    with assms Inr hc show ?thesis by (simp add: marginal_pmf_def range3_def)
  next
    case False
    with assms Inr hc have "for_each (bin_step h c b) (py_range 0 255 b) [] = Inr r"
      by (simp add: marginal_pmf_def range3_def)
    then show ?thesis using False by (simp add: bins_length)
  qed
qed

lemma py_range_length:
  "0 < step \<Longrightarrow>
   int (length (py_range start stop step)) = max 0 ((stop - start + step - 1) div step)"
proof (induction start stop step rule: py_range.induct)
  case (1 start stop step)
  show ?case
  proof (cases "start < stop")
    case True
    define d where "d = stop - start - 1"
    have d: "0 \<le> d" using True by (simp add: d_def)
    have "int (length (py_range (start + step) stop step)) =
        max 0 ((stop - (start + step) + step - 1) div step)"
      using "1.IH"(1) "1.prems" True by blast
    moreover have "stop - (start + step) + step - 1 = d" by (simp add: d_def)
    ultimately have IH: "int (length (py_range (start + step) stop step)) = max 0 (d div step)"
      by (simp only:)
    have nn: "0 \<le> d div step" using d "1.prems" by (simp add: pos_imp_zdiv_nonneg_iff)
    have "stop - start + step - 1 = d + step" by (simp add: d_def)
    moreover have "(d + step) div step = d div step + 1"
      using "1.prems" by simp
    ultimately have rhs: "(stop - start + step - 1) div step = d div step + 1"
      by (simp only:)
    have "py_range start stop step = start # py_range (start + step) stop step"
      using True "1.prems" by (rule py_range_Cons [rotated])
    then have "int (length (py_range start stop step)) = 1 + max 0 (d div step)"
      using IH by simp
    then show ?thesis using nn by (simp add: rhs)
  next
    case False
    then have "stop - start + step - 1 \<le> step - 1" by simp
    then have "(stop - start + step - 1) div step \<le> (step - 1) div step"
      using "1.prems" by (intro zdiv_mono1) simp_all
    moreover have "(step - 1) div step = 0"
      using "1.prems" by (intro div_pos_pos_trivial) simp_all
    ultimately have "(stop - start + step - 1) div step \<le> 0" by (simp only:)
    moreover have "py_range start stop step = []"
      using False "1.prems" by (intro py_range_Nil) simp_all
    ultimately show ?thesis by simp
  qed
qed

lemma marginal_pmf_length:
  assumes "marginal_pmf img b id0 = Inr r" "0 < b"
  shows "int (length r) = (254 + b) div b"
proof -
  have "0 \<le> (254 + b) div b" using assms(2) by (simp add: pos_imp_zdiv_nonneg_iff)
  moreover have "255 - 0 + b - 1 = 254 + b" by simp
  ultimately show ?thesis
    using marginal_pmf_bins [OF assms(1)] py_range_length [OF assms(2), of 0 255]
    by (simp only: max_def) simp
qed

lemma fsum_zeros:
  assumes "\<forall>x\<in>set xs. x = Fin 0"
  shows "fsum xs = Fin 0"
proof -
  have "foldl fadd (Fin 0) xs = Fin 0" using assms by (induction xs) simp_all
  then show ?thesis by (simp add: fsum_def)
qed

lemma marginal_pmf_white:
  assumes "0 < b" "b dvd 255"
  shows "\<exists>r. marginal_pmf [[255]] b id0 = Inr r \<and> (\<forall>x\<in>set r. x = Fin 0)"
proof -
  define h where "h = map (\<lambda>k. real (hits (map py_int (concat [[255]])) k)) [0..<256]"
  have h: "h ! k = 0" if "k < 255" for k
    using that by (simp add: h_def hits_def del: upt_rec_numeral)
  have fit: "bins_fit b" using assms by (intro bins_fit_dvd) simp_all
  have ok: "\<forall>p\<in>set (concat [[255 :: real]]). py_index 256 (py_int p) \<noteq> None"
    by (simp add: py_index_def)
  have r: "marginal_pmf [[255]] b id0 =
     Inr (map (\<lambda>i. fdiv (Fin (bin_total h i (nat b))) (Fin (real (length (concat [[255 :: real]])))))
            (py_range 0 255 b))"
    unfolding h_def by (rule marginal_pmf_Inr [OF ok fit])
  have "fdiv (Fin (bin_total h i (nat b))) (Fin (real (length (concat [[255 :: real]])))) = Fin 0"
    if i: "i \<in> set (py_range 0 255 b)" for i
  proof -
    from py_range_pos [OF assms(1) i] have i': "0 \<le> i" "i < 255" "b dvd i" by simp_all
    have "i + b \<le> 255" using assms i' by (intro next_multiple)
    then have "\<forall>j<nat b. h ! (nat i + j) = 0" using i'(1) by (intro allI impI h) linarith
    then have "bin_total h i (nat b) = 0" by (rule bin_total_zero)
    then show ?thesis by simp
  qed
  with r show ?thesis by auto
qed

text \<open>
  Claim C3 says that the entries of \<open>marginal_pmf\<close> sum to 1. The bins are those of
  \<^verbatim>\<open>range(0, 255, bin_size)\<close>, so for the default bin size 1 entry 255 of the table is never
  read: a pixel of intensity 255 is counted in the divisor and in no bin. On the image of
  one pixel of intensity 255 all 255 entries are 0 and so is their sum.
\<close>

theorem marginal_pmf_white_sum:
  "\<exists>r. marginal_pmf [[255]] 1 0 = Inr r \<and> fsum r = Fin 0"
  using marginal_pmf_white [of 1 0] by (auto intro: fsum_zeros)

text \<open>
  Claim C4 says that \<open>marginal_pmf\<close> has \<open>ceil(256 / bin_size)\<close> entries. It has one entry for
  every element of \<^verbatim>\<open>range(0, 255, bin_size)\<close>, that is \<open>ceil(255 / bin_size)\<close>: 255 entries
  and not 256 for the bin size 1, and 85 and not 86 for the bin size 3.
\<close>

theorem marginal_pmf_length_255:
  "(\<exists>r. marginal_pmf [[0]] 1 0 = Inr r \<and> length r = 255) \<and>
   (\<exists>r. marginal_pmf [[0]] 3 0 = Inr r \<and> length r = 85)"
proof -
  have ok: "\<forall>p\<in>set (concat [[0 :: real]]). py_index 256 (py_int p) \<noteq> None"
    by (simp add: py_index_def)
  have "bins_fit 1" by (rule bins_fit_dvd) simp_all
  from marginal_pmf_Inr [OF ok this] obtain r1 where r1: "marginal_pmf [[0]] 1 0 = Inr r1"
    by blast
  from marginal_pmf_Inr [OF ok bins_fit_3] obtain r3 where r3: "marginal_pmf [[0]] 3 0 = Inr r3"
    by blast
  have "int (length r1) = 255" using marginal_pmf_length [OF r1] by simp
  moreover have "int (length r3) = 85" using marginal_pmf_length [OF r3] by simp
  ultimately show ?thesis using r1 r3 by simp
qed

section \<open>The joint histogram\<close>

lemma fold_upt_Suc: "fold f [0..<Suc n] s = f n (fold f [0..<n] s)"
  by simp

lemma fill_row:
  assumes "i < length h" "n \<le> length (h ! i)"
  shows "fold (\<lambda>j h. h[i := (h ! i)[j := f j]]) [0..<n] h =
     h[i := map f [0..<n] @ drop n (h ! i)]"
  using assms(2)
proof (induction n)
  case 0
  then show ?case by simp
next
  case (Suc n)
  then have n: "n < length (h ! i)" by simp
  have IH: "fold (\<lambda>j h. h[i := (h ! i)[j := f j]]) [0..<n] h =
     h[i := map f [0..<n] @ drop n (h ! i)]"
    using Suc by simp
  show ?case
    using assms(1) update_prefix_drop [OF n, of f]
    by (simp only: fold_upt_Suc IH nth_list_update_eq list_update_overwrite)
qed

lemma fill_rows:
  assumes "m \<le> length h" "\<forall>i<m. length (h ! i) = w"
  shows "fold (\<lambda>i. fold (\<lambda>j h. h[i := (h ! i)[j := f i j]]) [0..<w]) [0..<m] h =
     map (\<lambda>i. map (f i) [0..<w]) [0..<m] @ drop m h"
  using assms
proof (induction m)
  case 0
  then show ?case by simp
next
  case (Suc m)
  let ?r = "map (\<lambda>i. map (f i) [0..<w]) [0..<m] @ drop m h"
  have IH: "fold (\<lambda>i. fold (\<lambda>j h. h[i := (h ! i)[j := f i j]]) [0..<w]) [0..<m] h = ?r"
    using Suc by simp
  have m: "m < length h" using Suc.prems by simp
  have rm: "?r ! m = h ! m" using m by (simp add: nth_append)
  have "fold (\<lambda>j h. h[m := (h ! m)[j := f m j]]) [0..<w] ?r =
      ?r[m := map (f m) [0..<w] @ drop w (?r ! m)]"
    using m Suc.prems(2) by (intro fill_row) (simp_all add: rm)
  moreover have "?r[m := map (f m) [0..<w] @ drop w (?r ! m)] =
      map (\<lambda>i. map (f i) [0..<w]) [0..<Suc m] @ drop (Suc m) h"
    using m Suc.prems(2) update_prefix_drop [of m h "\<lambda>i. map (f i) [0..<w]"]
    by (simp add: rm)
  ultimately show ?case by (simp only: fold_upt_Suc IH)
qed

lemma map_nth_upt: "map (\<lambda>i. g (xs ! i)) [0..<length xs] = map g xs"
  by (rule nth_equalityI) simp_all

lemma joint_pmf_eq:
  "joint_pmf x_pmf y_pmf =
     map (map (\<lambda>v. fdiv v (np_sum (map (\<lambda>a. map (fadd a) y_pmf) x_pmf))))
       (map (\<lambda>a. map (fadd a) y_pmf) x_pmf)"
proof -
  let ?z = "replicate (length x_pmf) (replicate (length y_pmf) (Fin 0))"
  have "fold (\<lambda>i. fold (\<lambda>j h. h[i := (h ! i)[j := fadd (x_pmf ! i) (y_pmf ! j)]])
                [0..<length y_pmf]) [0..<length x_pmf] ?z =
      map (\<lambda>i. map (\<lambda>j. fadd (x_pmf ! i) (y_pmf ! j)) [0..<length y_pmf]) [0..<length x_pmf]
        @ drop (length x_pmf) ?z"
    by (rule fill_rows) simp_all
  moreover have "map (\<lambda>i. map (\<lambda>j. fadd (x_pmf ! i) (y_pmf ! j)) [0..<length y_pmf])
       [0..<length x_pmf] = map (\<lambda>a. map (fadd a) y_pmf) x_pmf"
    by (simp only: map_nth_upt [of "fadd a" y_pmf for a]
        map_nth_upt [of "\<lambda>a. map (fadd a) y_pmf" x_pmf])
  ultimately show ?thesis by (simp add: joint_pmf_def Let_def)
qed

lemma foldl_fadd_Fin: "foldl fadd (Fin a) (map Fin rs) = Fin (a + sum_list rs)"
  by (induction rs arbitrary: a) (simp_all add: add.assoc)

lemma fsum_Fin: "fsum (map Fin rs) = Fin (sum_list rs)"
  by (simp add: fsum_def foldl_fadd_Fin)

lemma np_sum_Fin: "np_sum (map (map Fin) grid) = Fin (sum_list (concat grid))"
  using fsum_Fin [of "concat grid"] by (simp add: np_sum_def map_concat)

lemma sum_list_divide: "sum_list (map (\<lambda>v. v / s) vs) = sum_list vs / (s :: real)"
  by (induction vs) (simp_all add: add_divide_distrib)

lemma sum_list_pair_sums:
  "sum_list (concat (map (\<lambda>a. map (\<lambda>b. a + b) ys) xs)) =
     real (length ys) * sum_list xs + real (length xs) * sum_list (ys :: real list)"
proof -
  have row: "sum_list (map (\<lambda>b. a + b) ys) = real (length ys) * a + sum_list ys" for a
    by (induction ys) (simp_all add: algebra_simps)
  show ?thesis
    by (induction xs) (simp_all add: row algebra_simps)
qed

lemma sum_list_pos:
  assumes "\<forall>x\<in>set xs. 0 \<le> x" "\<exists>x\<in>set xs. 0 < (x :: real)"
  shows "0 < sum_list xs"
  using assms
proof (induction xs)
  case Nil
  then show ?case by simp
next
  case (Cons x xs)
  have rest: "0 \<le> sum_list xs" using Cons.prems(1) by (intro sum_list_nonneg) simp
  show ?case
  proof (cases "0 < x")
    case True
    with rest show ?thesis by simp
  next
    case False
    with Cons.prems have "x = 0" "\<exists>x\<in>set xs. 0 < x" by auto
    with Cons.IH Cons.prems(1) show ?thesis by simp
  qed
qed

lemma joint_pmf_Fin:
  fixes xs ys :: "real list"
  defines "s \<equiv> real (length ys) * sum_list xs + real (length xs) * sum_list ys"
  assumes "s \<noteq> 0"
  shows "joint_pmf (map Fin xs) (map Fin ys) = map (\<lambda>x. map (\<lambda>y. Fin ((x + y) / s)) ys) xs"
proof -
  have grid: "map (\<lambda>a. map (fadd a) (map Fin ys)) (map Fin xs) =
      map (map Fin) (map (\<lambda>a. map (\<lambda>b. a + b) ys) xs)"
    by (simp add: comp_def)
  have "np_sum (map (\<lambda>a. map (fadd a) (map Fin ys)) (map Fin xs)) = Fin s"
    by (simp only: grid np_sum_Fin sum_list_pair_sums s_def)
  then show ?thesis
    using assms(2) by (simp add: joint_pmf_eq comp_def)
qed

text \<open>
  Claim C5. For two non-empty lists of non-negative finite entries, one entry at least
  positive, \<open>joint_pmf\<close> is the grid of \<open>len(x_pmf)\<close> rows and \<open>len(y_pmf)\<close> columns whose
  cell \<open>(i, j)\<close> is the sum \<open>x_pmf[i] + y_pmf[j]\<close> divided by the total of all these sums,
  and its cells sum to 1. The arithmetic is exact.
\<close>

theorem joint_pmf_normalised:
  fixes xs ys :: "real list"
  assumes "xs \<noteq> []" "ys \<noteq> []" "\<forall>x\<in>set xs. 0 \<le> x" "\<forall>y\<in>set ys. 0 \<le> y"
    and "(\<exists>x\<in>set xs. 0 < x) \<or> (\<exists>y\<in>set ys. 0 < y)"
  shows "0 < real (length ys) * sum_list xs + real (length xs) * sum_list ys \<and>
     joint_pmf (map Fin xs) (map Fin ys) =
       map (\<lambda>x. map (\<lambda>y. Fin ((x + y) /
              (real (length ys) * sum_list xs + real (length xs) * sum_list ys))) ys) xs \<and>
     np_sum (joint_pmf (map Fin xs) (map Fin ys)) = Fin 1"
proof -
  define s where "s = real (length ys) * sum_list xs + real (length xs) * sum_list ys"
  have nx: "0 \<le> sum_list xs" and ny: "0 \<le> sum_list ys"
    using assms(3,4) by (simp_all add: sum_list_nonneg)
  have lx: "0 < real (length xs)" and ly: "0 < real (length ys)"
    using assms(1,2) by simp_all
  have "0 < sum_list xs \<or> 0 < sum_list ys"
    using assms(3-5) by (blast intro: sum_list_pos)
  then have s: "0 < s"
  proof
    assume "0 < sum_list xs"
    then have "0 < real (length ys) * sum_list xs" using ly by (rule mult_pos_pos [rotated])
    moreover have "0 \<le> real (length xs) * sum_list ys" using lx ny by simp
    ultimately show ?thesis unfolding s_def by (rule add_pos_nonneg)
  next
    assume "0 < sum_list ys"
    then have "0 < real (length xs) * sum_list ys" using lx by (rule mult_pos_pos [rotated])
    moreover have "0 \<le> real (length ys) * sum_list xs" using ly nx by simp
    ultimately show ?thesis unfolding s_def by (rule add_nonneg_pos [rotated])
  qed
  have j: "joint_pmf (map Fin xs) (map Fin ys) = map (\<lambda>x. map (\<lambda>y. Fin ((x + y) / s)) ys) xs"
    unfolding s_def using s by (intro joint_pmf_Fin) (simp add: s_def)
  have "map (\<lambda>x. map (\<lambda>y. Fin ((x + y) / s)) ys) xs =
      map (map Fin) (map (\<lambda>x. map (\<lambda>y. (x + y) / s) ys) xs)"
    by (simp add: comp_def)
  then have "np_sum (joint_pmf (map Fin xs) (map Fin ys)) =
      Fin (sum_list (concat (map (\<lambda>x. map (\<lambda>y. (x + y) / s) ys) xs)))"
    by (simp only: j np_sum_Fin)
  moreover have "concat (map (\<lambda>x. map (\<lambda>y. (x + y) / s) ys) xs) =
      map (\<lambda>v. v / s) (concat (map (\<lambda>x. map (\<lambda>y. x + y) ys) xs))"
    by (simp add: map_concat comp_def)
  ultimately have "np_sum (joint_pmf (map Fin xs) (map Fin ys)) = Fin (s / s)"
    by (simp only: sum_list_divide sum_list_pair_sums s_def)
  then show ?thesis using s j by (simp add: s_def)
qed

theorem joint_pmf_normalised_witness:
  "joint_pmf [Fin 1, Fin 0] [Fin (1 / 2), Fin (1 / 2)] =
     [[Fin (3 / 8), Fin (3 / 8)], [Fin (1 / 8), Fin (1 / 8)]] \<and>
   np_sum (joint_pmf [Fin 1, Fin 0] [Fin (1 / 2), Fin (1 / 2)]) = Fin 1"
  using joint_pmf_normalised [of "[1, 0]" "[1 / 2, 1 / 2]"]
  by (simp add: np_sum_def fsum_def)

section \<open>The score\<close>

lemma mass_cases:
  assumes "mass v"
  obtains "v = NaN" | r where "v = Fin r" "0 \<le> r"
  using assms by (cases v) (simp_all add: mass_def)

lemma mi_term_NaN:
  "a = NaN \<or> b = NaN \<or> t = NaN \<Longrightarrow> mi_term a b t = Inr NaN"
  by (cases a; cases b; cases t) (auto simp: mi_term_def inf_of_sign_def)

lemma mi_term_Fin:
  assumes "0 \<le> x" "0 \<le> y" "0 \<le> s"
  shows "\<exists>p. mi_term (Fin x) (Fin y) (Fin s) = Inr p \<and> p \<noteq> NInf \<and>
           (x = 0 \<or> y = 0 \<longrightarrow> p = PInf \<or> p = NaN)"
proof (cases "s = 0")
  case True
  then show ?thesis
    using assms by (auto simp: mi_term_def inf_of_sign_def)
next
  case False
  then have s: "0 < s" using assms(3) by simp
  show ?thesis
  proof (cases "x * y = 0")
    case True
    then show ?thesis
      using s assms
      by (auto simp: mi_term_def inf_of_sign_def zero_less_divide_iff divide_less_0_iff)
  next
    case False
    then have xy: "0 < x" "0 < y" using assms by auto
    then have "0 < (x + y) / s / (x * y)" using s by simp
    then show ?thesis
      using s xy by (simp add: mi_term_def)
  qed
qed

lemma mi_term_mass:
  assumes "mass a" "mass b" "mass t"
  shows "\<exists>p. mi_term a b t = Inr p \<and> p \<noteq> NInf \<and>
           (a = Fin 0 \<or> b = Fin 0 \<longrightarrow> p = PInf \<or> p = NaN)"
proof (cases "a = NaN \<or> b = NaN \<or> t = NaN")
  case True
  then show ?thesis by (simp add: mi_term_NaN)
next
  case False
  with assms obtain x y s where "a = Fin x" "b = Fin y" "t = Fin s" "0 \<le> x" "0 \<le> y" "0 \<le> s"
    by (auto elim!: mass_cases)
  then show ?thesis using mi_term_Fin [of x y s] by simp
qed

lemma mi_term_zero_zero: "mass t \<Longrightarrow> mi_term (Fin 0) (Fin 0) t = Inr NaN"
  by (cases t) (auto simp: mi_term_def inf_of_sign_def mass_def)

lemma fadd_not_NInf: "m \<noteq> NInf \<Longrightarrow> p \<noteq> NInf \<Longrightarrow> fadd m p \<noteq> NInf"
  by (cases m; cases p) simp_all

lemma fadd_nonfinite:
  "m \<noteq> NInf \<Longrightarrow> p \<noteq> NInf \<Longrightarrow> m = PInf \<or> m = NaN \<or> p = PInf \<or> p = NaN \<Longrightarrow>
   fadd m p = PInf \<or> fadd m p = NaN"
  by (cases m; cases p) simp_all

lemma fadd_NaN [simp]: "fadd m NaN = NaN"
  by (cases m) simp_all

lemma fadd_mass: "mass a \<Longrightarrow> mass b \<Longrightarrow> mass (fadd a b)"
  by (cases a; cases b) (simp_all add: mass_def)

lemma foldl_fadd_mass: "mass a \<Longrightarrow> \<forall>v\<in>set vs. mass v \<Longrightarrow> mass (foldl fadd a vs)"
  by (induction vs arbitrary: a) (simp_all add: fadd_mass)

lemma np_sum_mass:
  assumes "\<forall>row\<in>set grid. \<forall>v\<in>set row. mass v"
  shows "mass (np_sum grid)"
  unfolding np_sum_def fsum_def using assms
  by (intro foldl_fadd_mass) (auto simp: mass_def)

lemma for_each_Inr_inv:
  assumes "for_each body xs s = Inr s'" "I s"
    and "\<And>x s s'. x \<in> set xs \<Longrightarrow> I s \<Longrightarrow> body x s = Inr s' \<Longrightarrow> I s'"
  shows "I s'"
  using assms
proof (induction xs arbitrary: s)
  case Nil
  then show ?case by simp
next
  case (Cons x xs)
  show ?case
  proof (cases "body x s")
    case (Inl e)
    with Cons.prems(1) show ?thesis by simp
  next
    case (Inr s1)
    then have "I s1" using Cons.prems(2,3) by (meson list.set_intros(1))
    moreover have "for_each body xs s1 = Inr s'" using Cons.prems(1) Inr by simp
    ultimately show ?thesis
      using Cons.prems(3) by (intro Cons.IH [of s1]) (simp_all, meson list.set_intros(2))
  qed
qed

lemma for_each_inv_hit:
  assumes "I s" "x0 \<in> set xs"
    and step: "\<And>x s. x \<in> set xs \<Longrightarrow> I s \<Longrightarrow> \<exists>s'. body x s = Inr s' \<and> I s'"
    and hit: "\<And>s. I s \<Longrightarrow> \<exists>s'. body x0 s = Inr s' \<and> B s'"
    and keep: "\<And>x s. x \<in> set xs \<Longrightarrow> B s \<Longrightarrow> \<exists>s'. body x s = Inr s' \<and> B s'"
  shows "\<exists>s'. for_each body xs s = Inr s' \<and> B s'"
  using assms
proof (induction xs arbitrary: s)
  case Nil
  then show ?case by simp
next
  case (Cons x xs)
  show ?case
  proof (cases "x = x0")
    case True
    from Cons.prems(4) [OF Cons.prems(1)] obtain s1 where s1: "body x0 s = Inr s1" "B s1"
      by blast
    have "\<exists>s'. for_each body xs s1 = Inr s' \<and> B s'"
      using s1(2) by (rule for_each_inv) (simp add: Cons.prems(5))
    with s1 True show ?thesis by simp
  next
    case False
    with Cons.prems(2) have x0: "x0 \<in> set xs" by simp
    from Cons.prems(3) [of x s] Cons.prems(1) obtain s1 where s1: "body x s = Inr s1" "I s1"
      by auto
    have "\<exists>s'. for_each body xs s1 = Inr s' \<and> B s'"
      using s1(2) x0 by (rule Cons.IH) (simp_all add: Cons.prems(3,4,5))
    with s1 show ?thesis by simp
  qed
qed

lemma count_pixel_hist_ok:
  assumes "count_pixel row i st = Inr st'" "hist_ok st"
  shows "hist_ok st'"
proof -
  obtain h c where st: "st = (h, c)" by (cases st)
  from assms(1) obtain k where k: "py_index (length h) (py_int (row ! i)) = Some k"
    and st': "st' = (h[k := h ! k + 1], c + 1)"
    by (auto simp: count_pixel_def st Let_def split: option.splits)
  have kl: "k < length h" using k by (rule py_index_less)
  then have "0 \<le> h ! k" using assms(2) by (simp add: hist_ok_def st list_all_length)
  then show ?thesis
    using assms(2) kl by (auto simp: hist_ok_def st st' list_all_length nth_list_update)
qed

lemma raw_hist_ok:
  assumes "raw_hist img = Inr st"
  shows "hist_ok st"
proof -
  have "hist_ok (replicate 256 0, 0)" by (simp add: hist_ok_def list_all_length)
  with assms [unfolded raw_hist_def] show ?thesis
  proof (rule for_each_Inr_inv)
    fix row s s'
    assume "hist_ok s" "for_each (count_pixel row) [0..<length row] s = Inr s'"
    from this(2,1) show "hist_ok s'"
      by (rule for_each_Inr_inv) (rule count_pixel_hist_ok)
  qed
qed

lemma bin_add_ok:
  assumes "bin_add h i j var = Inr var'" "hist_ok (h, c)" "0 \<le> var \<and> (c = 0 \<longrightarrow> var = 0)"
  shows "0 \<le> var' \<and> (c = 0 \<longrightarrow> var' = 0)"
proof -
  from assms(1) obtain k where k: "py_index (length h) (i + int j) = Some k"
    and var': "var' = var + h ! k"
    by (auto simp: bin_add_def split: option.splits)
  have "k < length h" using k by (rule py_index_less)
  then have "0 \<le> h ! k \<and> (c = 0 \<longrightarrow> h ! k = 0)"
    using assms(2) by (simp add: hist_ok_def list_all_length)
  with assms(3) var' show ?thesis by simp
qed

lemma bin_step_mass:
  assumes "bin_step h c b i acc = Inr acc'" "hist_ok (h, c)" "\<forall>v\<in>set acc. mass v"
  shows "\<forall>v\<in>set acc'. mass v"
proof -
  from assms(1) obtain var where var: "for_each (bin_add h i) [0..<nat b] 0 = Inr var"
    and acc': "acc' = acc @ [fdiv (Fin var) (Fin (real c))]"
    by (auto simp: bin_step_def split: sum.splits)
  have "0 \<le> (0::real) \<and> (c = 0 \<longrightarrow> (0::real) = 0)" by simp
  with var have "0 \<le> var \<and> (c = 0 \<longrightarrow> var = 0)"
    by (rule for_each_Inr_inv) (rule bin_add_ok [OF _ assms(2)])
  then have "mass (fdiv (Fin var) (Fin (real c)))"
    by (auto simp: mass_def inf_of_sign_def)
  with assms(3) acc' show ?thesis by simp
qed

lemma marginal_pmf_mass:
  assumes "marginal_pmf img b id0 = Inr px"
  shows "\<forall>v\<in>set px. mass v"
proof (cases "raw_hist img")
  case (Inl e)
  with assms show ?thesis by (simp add: marginal_pmf_def)
next
  case (Inr hc)
  obtain h c where hc: "hc = (h, c)" by (cases hc)
  have ok: "hist_ok (h, c)" using raw_hist_ok [OF Inr] by (simp add: hc)
  from marginal_pmf_bins [OF assms] have "b \<noteq> 0" by simp
  with assms Inr hc have loop: "for_each (bin_step h c b) (py_range 0 255 b) [] = Inr px"
    by (simp add: marginal_pmf_def range3_def)
  have "\<forall>v\<in>set ([] :: fl list). mass v" by simp
  with loop show ?thesis
    by (rule for_each_Inr_inv) (rule bin_step_mass [OF _ ok])
qed

lemma joint_pmf_nth:
  "i < length px \<Longrightarrow> j < length py \<Longrightarrow>
   joint_pmf px py ! i ! j = fdiv (fadd (px ! i) (py ! j)) (grid_total px py)"
  by (simp add: joint_pmf_eq grid_total_def)

lemma grid_total_mass:
  assumes "\<forall>v\<in>set px. mass v" "\<forall>v\<in>set py. mass v"
  shows "mass (grid_total px py)"
  unfolding grid_total_def using assms by (intro np_sum_mass) (auto intro: fadd_mass)

lemma mi_cell_eq:
  assumes "i < length px" "j < length py"
  shows "mi_cell px py (joint_pmf px py) i j (mi, visual) =
     (case mi_term (px ! i) (py ! j) (grid_total px py) of
        Inl e \<Rightarrow> Inl e
      | Inr p \<Rightarrow> Inr (fadd mi p, visual[i := (visual ! i)[j := p]]))"
  using assms by (simp add: mi_cell_def mi_term_def joint_pmf_nth Let_def split: sum.splits)

lemma mi_loop_total:
  fixes s :: "fl \<times> fl list list"
  assumes "\<forall>v\<in>set px. mass v" "\<forall>v\<in>set py. mass v" "fst s \<noteq> NInf"
  shows "\<exists>s'. for_each (\<lambda>i. for_each (mi_cell px py (joint_pmf px py) i) [0..<length py])
                 [0..<length px] s = Inr s' \<and> fst s' \<noteq> NInf"
  using assms(3)
proof (rule for_each_inv)
  fix i and s :: "fl \<times> fl list list"
  assume i: "i \<in> set [0..<length px]" and s: "fst s \<noteq> NInf"
  from s show "\<exists>s'. for_each (mi_cell px py (joint_pmf px py) i) [0..<length py] s = Inr s' \<and>
      fst s' \<noteq> NInf"
  proof (rule for_each_inv)
    fix j and s :: "fl \<times> fl list list"
    assume j: "j \<in> set [0..<length py]" and s: "fst s \<noteq> NInf"
    obtain mi visual where st: "s = (mi, visual)" by (cases s)
    have "mass (px ! i)" "mass (py ! j)" using assms(1,2) i j by simp_all
    from mi_term_mass [OF this grid_total_mass [OF assms(1,2)]]
    obtain p where "mi_term (px ! i) (py ! j) (grid_total px py) = Inr p" "p \<noteq> NInf" by blast
    then show "\<exists>s'. mi_cell px py (joint_pmf px py) i j s = Inr s' \<and> fst s' \<noteq> NInf"
      using i j s by (simp add: st mi_cell_eq fadd_not_NInf)
  qed
qed

lemma mi_loop_hit:
  fixes s :: "fl \<times> fl list list"
  assumes px: "\<forall>v\<in>set px. mass v" and py: "\<forall>v\<in>set py. mass v"
    and i0: "i0 < length px" and j0: "j0 < length py"
    and keep: "\<And>m p. B m \<Longrightarrow> p \<noteq> NInf \<Longrightarrow> B (fadd m p)"
    and hit: "\<And>m p. m \<noteq> NInf \<Longrightarrow>
        mi_term (px ! i0) (py ! j0) (grid_total px py) = Inr p \<Longrightarrow> B (fadd m p)"
    and s: "fst s \<noteq> NInf"
  shows "\<exists>s'. for_each (\<lambda>i. for_each (mi_cell px py (joint_pmf px py) i) [0..<length py])
                 [0..<length px] s = Inr s' \<and> B (fst s')"
proof -
  let ?cell = "mi_cell px py (joint_pmf px py)"
  have tm: "\<exists>p. mi_term (px ! i) (py ! j) (grid_total px py) = Inr p \<and> p \<noteq> NInf"
    if "i < length px" "j \<in> set [0..<length py]" for i j
  proof -
    have "mass (px ! i)" "mass (py ! j)" using px py that by simp_all
    from mi_term_mass [OF this grid_total_mass [OF px py]] show ?thesis by blast
  qed
  have cI: "\<exists>s'. ?cell i j s = Inr s' \<and> fst s' \<noteq> NInf"
    if "i < length px" "j \<in> set [0..<length py]" "fst s \<noteq> NInf"
    for i j and s :: "fl \<times> fl list list"
    using tm [OF that(1), of j] that by (cases s) (auto simp: mi_cell_eq fadd_not_NInf)
  have cB: "\<exists>s'. ?cell i j s = Inr s' \<and> B (fst s')"
    if "i < length px" "j \<in> set [0..<length py]" "B (fst s)"
    for i j and s :: "fl \<times> fl list list"
    using tm [OF that(1), of j] that by (cases s) (auto simp: mi_cell_eq keep)
  have cHit: "\<exists>s'. ?cell i0 j0 s = Inr s' \<and> B (fst s')"
    if "fst s \<noteq> NInf" for s :: "fl \<times> fl list list"
    using tm [OF i0, of j0] that i0 j0 by (cases s) (auto simp: mi_cell_eq hit)
  have rI: "\<exists>s'. for_each (?cell i) [0..<length py] s = Inr s' \<and> fst s' \<noteq> NInf"
    if "i \<in> set [0..<length px]" "fst s \<noteq> NInf" for i and s :: "fl \<times> fl list list"
  proof -
    have i: "i < length px" using that(1) by simp
    show ?thesis using that(2) by (rule for_each_inv) (rule cI [OF i])
  qed
  have rB: "\<exists>s'. for_each (?cell i) [0..<length py] s = Inr s' \<and> B (fst s')"
    if "i \<in> set [0..<length px]" "B (fst s)" for i and s :: "fl \<times> fl list list"
  proof -
    have i: "i < length px" using that(1) by simp
    show ?thesis using that(2) by (rule for_each_inv) (rule cB [OF i])
  qed
  have rHit: "\<exists>s'. for_each (?cell i0) [0..<length py] s = Inr s' \<and> B (fst s')"
    if "fst s \<noteq> NInf" for s :: "fl \<times> fl list list"
    using that
  proof (rule for_each_inv_hit [where ?x0.0 = j0])
    show "j0 \<in> set [0..<length py]" using j0 by simp
  next
    fix x and s :: "fl \<times> fl list list"
    assume "x \<in> set [0..<length py]" "fst s \<noteq> NInf"
    then show "\<exists>s'. ?cell i0 x s = Inr s' \<and> fst s' \<noteq> NInf" by (rule cI [OF i0])
  next
    fix s :: "fl \<times> fl list list"
    assume "fst s \<noteq> NInf"
    then show "\<exists>s'. ?cell i0 j0 s = Inr s' \<and> B (fst s')" by (rule cHit)
  next
    fix x and s :: "fl \<times> fl list list"
    assume "x \<in> set [0..<length py]" "B (fst s)"
    then show "\<exists>s'. ?cell i0 x s = Inr s' \<and> B (fst s')" by (rule cB [OF i0])
  qed
  show ?thesis
    using s
  proof (rule for_each_inv_hit [where ?x0.0 = i0])
    show "i0 \<in> set [0..<length px]" using i0 by simp
  next
    fix x and s :: "fl \<times> fl list list"
    assume "x \<in> set [0..<length px]" "fst s \<noteq> NInf"
    then show "\<exists>s'. for_each (?cell x) [0..<length py] s = Inr s' \<and> fst s' \<noteq> NInf"
      by (rule rI)
  next
    fix s :: "fl \<times> fl list list"
    assume "fst s \<noteq> NInf"
    then show "\<exists>s'. for_each (?cell i0) [0..<length py] s = Inr s' \<and> B (fst s')"
      by (rule rHit)
  next
    fix x and s :: "fl \<times> fl list list"
    assume "x \<in> set [0..<length px]" "B (fst s)"
    then show "\<exists>s'. for_each (?cell x) [0..<length py] s = Inr s' \<and> B (fst s')"
      by (rule rB)
  qed
qed

lemma mutual_information_total:
  assumes "marginal_pmf image1 b id0 = Inr px" "marginal_pmf image2 b (id0 + 100) = Inr py"
  shows "\<exists>mi. mutual_information image1 image2 id0 b = Inr mi \<and> mi \<noteq> NInf"
proof -
  have "fst (Fin 0, joint_pmf px py) \<noteq> NInf" by simp
  from mi_loop_total [OF marginal_pmf_mass [OF assms(1)] marginal_pmf_mass [OF assms(2)] this]
  show ?thesis
    by (auto simp: mutual_information_def assms Let_def)
qed

lemma mutual_information_hit:
  assumes "marginal_pmf image1 b id0 = Inr px" "marginal_pmf image2 b (id0 + 100) = Inr py"
    and "i0 < length px" "j0 < length py"
    and "\<And>m p. B m \<Longrightarrow> p \<noteq> NInf \<Longrightarrow> B (fadd m p)"
    and "\<And>m p. m \<noteq> NInf \<Longrightarrow>
        mi_term (px ! i0) (py ! j0) (grid_total px py) = Inr p \<Longrightarrow> B (fadd m p)"
  shows "\<exists>mi. mutual_information image1 image2 id0 b = Inr mi \<and> B mi"
proof -
  have "fst (Fin 0, joint_pmf px py) \<noteq> NInf" by simp
  from mi_loop_hit [of px py i0 j0 B, OF marginal_pmf_mass [OF assms(1)]
      marginal_pmf_mass [OF assms(2)] assms(3,4,5,6) this]
  show ?thesis
    by (auto simp: mutual_information_def assms(1,2) Let_def)
qed

text \<open>
  Claim C6, as amended. When both marginal histograms are computed and one of them has
  an entry of zero mass, \<open>mutual_information\<close> raises nothing: the division by the zero
  product of the marginals gives an infinity or NaN, the logarithm passes it on, and the
  returned score is \<open>+inf\<close> or NaN.
\<close>

theorem mutual_information_zero_bin:
  assumes "marginal_pmf image1 bin_size id0 = Inr px"
    and "marginal_pmf image2 bin_size (id0 + 100) = Inr py"
    and "Fin 0 \<in> set px \<or> Fin 0 \<in> set py"
  shows "mutual_information image1 image2 id0 bin_size = Inr PInf \<or>
         mutual_information image1 image2 id0 bin_size = Inr NaN"
proof -
  have len: "length px = length py"
    using marginal_pmf_bins [OF assms(1)] marginal_pmf_bins [OF assms(2)] by simp
  have "\<exists>i0 j0. i0 < length px \<and> j0 < length py \<and> (px ! i0 = Fin 0 \<or> py ! j0 = Fin 0)"
    using assms(3)
  proof
    assume "Fin 0 \<in> set px"
    then obtain i where "i < length px" "px ! i = Fin 0" by (auto simp: in_set_conv_nth)
    then show ?thesis using len by (intro exI [of _ i] exI [of _ 0]) auto
  next
    assume "Fin 0 \<in> set py"
    then obtain j where "j < length py" "py ! j = Fin 0" by (auto simp: in_set_conv_nth)
    then show ?thesis using len by (intro exI [of _ 0] exI [of _ j]) auto
  qed
  then obtain i0 j0 where i0: "i0 < length px" and j0: "j0 < length py"
    and z: "px ! i0 = Fin 0 \<or> py ! j0 = Fin 0" by blast
  have mx: "mass (px ! i0)" and my: "mass (py ! j0)"
    using marginal_pmf_mass [OF assms(1)] marginal_pmf_mass [OF assms(2)] i0 j0 by simp_all
  have mt: "mass (grid_total px py)"
    by (rule grid_total_mass [OF marginal_pmf_mass [OF assms(1)] marginal_pmf_mass [OF assms(2)]])
  have "\<exists>mi. mutual_information image1 image2 id0 bin_size = Inr mi \<and> (mi = PInf \<or> mi = NaN)"
    using assms(1,2) i0 j0
  proof (rule mutual_information_hit)
    fix m p assume "m = PInf \<or> m = NaN" "p \<noteq> NInf"
    then show "fadd m p = PInf \<or> fadd m p = NaN" by (intro fadd_nonfinite) auto
  next
    fix m p assume m: "m \<noteq> NInf" and p: "mi_term (px ! i0) (py ! j0) (grid_total px py) = Inr p"
    from mi_term_mass [OF mx my mt] p z have "p \<noteq> NInf" "p = PInf \<or> p = NaN" by auto
    with m show "fadd m p = PInf \<or> fadd m p = NaN" by (intro fadd_nonfinite) auto
  qed
  then show ?thesis by auto
qed

lemma marginal_pmf_white_entry:
  "\<exists>r. marginal_pmf [[255]] 1 id0 = Inr r \<and> 0 < length r \<and> r ! 0 = Fin 0"
proof -
  from marginal_pmf_white [of 1 id0] obtain r
    where r: "marginal_pmf [[255]] 1 id0 = Inr r" "\<forall>x\<in>set r. x = Fin 0" by auto
  have "int (length r) = 255" using marginal_pmf_length [OF r(1)] by simp
  then have "0 < length r" by simp
  with r show ?thesis by auto
qed

theorem mutual_information_zero_bin_witness:
  "(\<exists>px. marginal_pmf [[255]] 1 0 = Inr px \<and> Fin 0 \<in> set px) \<and>
   (mutual_information [[255]] [[255]] 0 1 = Inr PInf \<or>
    mutual_information [[255]] [[255]] 0 1 = Inr NaN)"
proof -
  from marginal_pmf_white_entry [of 0] obtain px
    where px: "marginal_pmf [[255]] 1 0 = Inr px" "0 < length px" "px ! 0 = Fin 0" by blast
  from marginal_pmf_white_entry [of "0 + 100"] obtain py
    where py: "marginal_pmf [[255]] 1 (0 + 100) = Inr py" by blast
  have z: "Fin 0 \<in> set px" using px(2,3) by (metis nth_mem)
  then have "Fin 0 \<in> set px \<or> Fin 0 \<in> set py" by simp
  from mutual_information_zero_bin [OF px(1) py this] px(1) z show ?thesis by blast
qed

text \<open>
  The claim C6 as written fails: on two images of one pixel of intensity 255 and the bin
  size 1 every marginal entry has zero mass, and the score NaN is returned.
\<close>

theorem mutual_information_returns_nan:
  "(\<exists>px. marginal_pmf [[255]] 1 0 = Inr px \<and> Fin 0 \<in> set px) \<and>
   mutual_information [[255]] [[255]] 0 1 = Inr NaN"
proof -
  from marginal_pmf_white_entry [of 0] obtain px
    where px: "marginal_pmf [[255]] 1 0 = Inr px" "0 < length px" "px ! 0 = Fin 0" by blast
  from marginal_pmf_white_entry [of "0 + 100"] obtain py
    where py: "marginal_pmf [[255]] 1 (0 + 100) = Inr py" "0 < length py" "py ! 0 = Fin 0"
    by blast
  have z: "Fin 0 \<in> set px" using px(2,3) by (metis nth_mem)
  have mt: "mass (grid_total px py)"
    by (rule grid_total_mass [OF marginal_pmf_mass [OF px(1)] marginal_pmf_mass [OF py(1)]])
  have "\<exists>mi. mutual_information [[255]] [[255]] 0 1 = Inr mi \<and> mi = NaN"
    using px(1) py(1) px(2) py(2)
  proof (rule mutual_information_hit)
    fix m p :: fl assume "m = NaN"
    then show "fadd m p = NaN" by simp
  next
    fix m p assume "mi_term (px ! 0) (py ! 0) (grid_total px py) = Inr p"
    then have "p = NaN" using mi_term_zero_zero [OF mt] px(3) py(3) by simp
    then show "fadd m p = NaN" by simp
  qed
  with px(1) z show ?thesis by blast
qed

section \<open>The search over the shifts\<close>

lemma for_each_collect:
  assumes "\<And>x acc. x \<in> set xs \<Longrightarrow> step x acc = Inr (acc @ [f x])"
  shows "for_each step xs acc = Inr (acc @ map f xs)"
  using assms by (induction xs arbitrary: acc) simp_all

lemma overlap_shift_Inr:
  assumes "rect ref" "rect temp" "length ref \<le> length temp" "ncols ref + 40 \<le> ncols temp"
    and "i \<le> 40"
  shows "overlap ref temp (int i) =
     Inr (map (\<lambda>r. map (\<lambda>j. temp ! r ! (40 - i + j)) [0..<ncols ref]) [0..<length ref])"
proof -
  have idx: "py_index (ncols temp) ((40 - int i) + int j) = Some (40 - i + j)"
    if "j < ncols ref" for j
    using that assms(4,5) by (simp add: py_index_def nat_add_distrib nat_diff_distrib)
  then have "overlap ref temp (int i) =
     Inr (map (\<lambda>r. map (\<lambda>j. temp ! r ! the (py_index (ncols temp) ((40 - int i) + int j)))
                 [0..<ncols ref]) [0..<length ref])"
    using assms(1-3) by (intro overlap_Inr) simp_all
  then show ?thesis using idx by simp
qed

lemma window_pixels:
  assumes "rect temp" "h \<le> length temp" "k + w \<le> ncols temp"
  shows "set (concat (map (\<lambda>r. map (\<lambda>j. temp ! r ! (k + j)) [0..<w]) [0..<h]))
     \<subseteq> set (concat temp)"
proof
  fix p assume "p \<in> set (concat (map (\<lambda>r. map (\<lambda>j. temp ! r ! (k + j)) [0..<w]) [0..<h]))"
  then obtain r j where rj: "r < h" "j < w" "p = temp ! r ! (k + j)" by auto
  then have r: "r < length temp" using assms(2) by simp
  then have "length (temp ! r) = ncols temp" using assms(1) by (simp add: rect_nth)
  then have "k + j < length (temp ! r)" using rj(2) assms(3) by simp
  then have "p \<in> set (temp ! r)" using rj(3) by simp
  moreover have "temp ! r \<in> set temp" using r by simp
  ultimately show "p \<in> set (concat temp)" by auto
qed

lemma mutual_information_bin_3:
  assumes "\<forall>p\<in>set (concat image1). py_index 256 (py_int p) \<noteq> None"
    and "\<forall>p\<in>set (concat image2). py_index 256 (py_int p) \<noteq> None"
  shows "\<exists>mi. mutual_information image1 image2 id0 3 = Inr mi"
proof -
  from marginal_pmf_Inr [OF assms(1) bins_fit_3, of id0]
  obtain px where px: "marginal_pmf image1 3 id0 = Inr px" by blast
  from marginal_pmf_Inr [OF assms(2) bins_fit_3, of "id0 + 100"]
  obtain py where py: "marginal_pmf image2 3 (id0 + 100) = Inr py" by blast
  from mutual_information_total [OF px py] show ?thesis by blast
qed

lemma prepare_image_shape:
  assumes "rect img" "40 \<le> ncols img"
  defines "reference \<equiv>
     map (\<lambda>row. take (ncols img - 40) (drop 20 (map (\<lambda>(r, g, b). g) row))) img"
    and "comparison \<equiv> map (map (\<lambda>(r, g, b). r)) img"
  shows "prepare_image img = Inr (reference, comparison)"
    and "rect reference" and "rect comparison"
    and "ncols reference + 40 = ncols comparison"
    and "length reference = length comparison"
    and "ncols comparison = ncols img"
proof -
  have ne: "img \<noteq> []" using assms(2) by (auto simp: ncols_def)
  have len: "\<forall>row\<in>set img. length row = ncols img" using assms(1) by (auto dest: rect_set)
  have nc: "ncols reference = ncols img - 40" "ncols comparison = ncols img"
    using ne assms(2) by (simp_all add: reference_def comparison_def ncols_hd hd_map)
  show "prepare_image img = Inr (reference, comparison)"
    unfolding reference_def comparison_def by (rule prepare_image_Inr [OF assms(1,2)])
  show "rect reference" "rect comparison"
    using len assms(2) nc
    by (auto simp: rect_def list_all_iff reference_def comparison_def)
  show "ncols reference + 40 = ncols comparison" using nc assms(2) by simp
  show "length reference = length comparison" by (simp add: reference_def comparison_def)
  show "ncols comparison = ncols img" by (rule nc(2))
qed

lemma save_Inr: "0 < ncols img \<Longrightarrow> save img fname = Inr ()"
  by (simp add: save_def)

lemma py_int_of_nat [simp]: "py_int (real n) = int n"
  by (simp add: py_int_def)

text \<open>
  Claim C1, as amended. For a rectangular colour image of width at least 41 whose red and
  green intensities truncate into the index range of the table, \<open>registration\<close> returns a
  list of exactly 41 scores, in ascending order of the shift: the entry at position \<open>i\<close> is
  the mutual information of the reference and the window of shift \<open>i\<close>. The list holds the
  bare scores; no shift is stored with them.
\<close>

theorem registration_scores:
  assumes "rect img" "41 \<le> ncols img"
    and "\<forall>row\<in>set img. \<forall>(r, g, b)\<in>set row.
           - 256 \<le> py_int r \<and> py_int r \<le> 255 \<and> - 256 \<le> py_int g \<and> py_int g \<le> 255"
  shows "\<exists>reference comparison results.
     prepare_image img = Inr (reference, comparison) \<and>
     registration img = Inr results \<and> length results = 41 \<and>
     (\<forall>i<41. \<exists>window. overlap reference comparison (int i) = Inr window \<and>
        mutual_information reference window (int i) 3 = Inr (results ! i))"
proof -
  define reference where "reference =
     map (\<lambda>row. take (ncols img - 40) (drop 20 (map (\<lambda>(r, g, b). g) row))) img"
  define comparison where "comparison = map (map (\<lambda>(r, g, b). r)) img"
  have w40: "40 \<le> ncols img" using assms(2) by simp
  note shape = prepare_image_shape [OF assms(1) w40, folded reference_def comparison_def]
  define window where "window i =
     map (\<lambda>r. map (\<lambda>j. comparison ! r ! (40 - i + j)) [0..<ncols reference])
       [0..<length reference]" for i :: nat
  have ok_ref: "\<forall>p\<in>set (concat reference). py_index 256 (py_int p) \<noteq> None"
  proof
    fix p assume "p \<in> set (concat reference)"
    then obtain row where row: "row \<in> set img"
      and "p \<in> set (take (ncols img - 40) (drop 20 (map (\<lambda>(r, g, b). g) row)))"
      by (auto simp: reference_def)
    then have "p \<in> set (map (\<lambda>(r, g, b). g) row)"
      by (meson in_set_takeD in_set_dropD)
    then obtain r g b where "(r, g, b) \<in> set row" "p = g" by auto
    with assms(3) row have "- 256 \<le> py_int p" "py_int p \<le> 255" by fastforce+
    then show "py_index 256 (py_int p) \<noteq> None" by (rule pixel_index_ok)
  qed
  have ok_cmp: "\<forall>p\<in>set (concat comparison). py_index 256 (py_int p) \<noteq> None"
  proof
    fix p assume "p \<in> set (concat comparison)"
    then obtain row r g b where "row \<in> set img" "(r, g, b) \<in> set row" "p = r"
      by (auto simp: comparison_def)
    with assms(3) have "- 256 \<le> py_int p" "py_int p \<le> 255" by fastforce+
    then show "py_index 256 (py_int p) \<noteq> None" by (rule pixel_index_ok)
  qed
  have "0 < ncols reference" "0 < ncols comparison"
    using shape(4,6) assms(2) by simp_all
  then have saved: "save reference ''ref.png'' = Inr ()" "save comparison ''temp.png'' = Inr ()"
    by (simp_all only: save_Inr)
  have ov: "overlap reference comparison (int i) = Inr (window i)" if "i \<le> 40" for i
    unfolding window_def using shape(2,3) that
    by (intro overlap_shift_Inr) (simp_all add: shape(4,5))
  have "\<exists>mi. mutual_information reference (window i) (int i) 3 = Inr mi" if "i \<le> 40" for i
  proof -
    have "set (concat (window i)) \<subseteq> set (concat comparison)"
      unfolding window_def using shape(3) that
      by (intro window_pixels) (simp_all add: shape(4) [symmetric] shape(5))
    with ok_cmp have "\<forall>p\<in>set (concat (window i)). py_index 256 (py_int p) \<noteq> None" by blast
    with ok_ref show ?thesis by (rule mutual_information_bin_3)
  qed
  then obtain score where
    score: "\<And>i. i \<le> 40 \<Longrightarrow> mutual_information reference (window i) (int i) 3 = Inr (score i)"
    by metis
  have step: "registration_step reference comparison i acc = Inr (acc @ [score i])"
    if "i \<in> set [0..<41]" for i acc
  proof -
    have "i \<le> 40" using that by simp
    then show ?thesis by (simp add: registration_step_def ov score)
  qed
  have "for_each (registration_step reference comparison) [0..<41] [] =
      Inr ([] @ map score [0..<41])"
    by (rule for_each_collect) (rule step)
  then have reg: "registration img = Inr (map score [0..<41])"
    by (simp add: registration_def shape(1) saved del: upt_rec_numeral)
  have "\<forall>i<41. overlap reference comparison (int i) = Inr (window i) \<and>
      mutual_information reference (window i) (int i) 3 = Inr (map score [0..<41] ! i)"
    using ov score by (simp del: upt_rec_numeral)
  moreover have "length (map score [0..<41]) = 41" by simp
  ultimately show ?thesis using shape(1) reg by blast
qed

theorem registration_scores_witness:
  "rect [map (\<lambda>c. (real (3 * (c mod 85)), real (3 * (c mod 85)), 0 :: real)) [0..<125]] \<and>
   (\<exists>results.
      registration [map (\<lambda>c. (real (3 * (c mod 85)), real (3 * (c mod 85)), 0)) [0..<125]] =
        Inr results \<and> length results = 41)"
proof -
  let ?img = "[map (\<lambda>c. (real (3 * (c mod 85)), real (3 * (c mod 85)), 0 :: real)) [0..<125]]"
  have pre: "rect ?img" "41 \<le> ncols ?img"
    by (simp_all add: rect_def ncols_def del: upt_rec_numeral)
  have "- 256 \<le> int (3 * (c mod 85)) \<and> int (3 * (c mod 85)) \<le> 255" for c :: nat
  proof -
    have "c mod 85 < 85" by simp
    then show ?thesis by linarith
  qed
  then have "\<forall>row\<in>set ?img. \<forall>(r, g, b)\<in>set row.
       - 256 \<le> py_int r \<and> py_int r \<le> 255 \<and> - 256 \<le> py_int g \<and> py_int g \<le> 255"
    by (auto simp del: upt_rec_numeral of_nat_mult)
  from registration_scores [OF pre this] pre(1) show ?thesis by blast
qed

text \<open>
  The claim C1 as written fails at the width 40: the cropped reference has no column,
  \<^verbatim>\<open>save\<close> raises ValueError on it, and no score is returned.
\<close>

theorem registration_width_40:
  "registration [replicate 40 (7, 9, 0)] = Inl ValueError"
proof -
  let ?img = "[replicate 40 (7 :: real, 9 :: real, 0 :: real)]"
  have pre: "rect ?img" "40 \<le> ncols ?img" by (simp_all add: rect_def ncols_def)
  note shape = prepare_image_shape [OF pre]
  have "ncols ?img = 40" by (simp add: ncols_def)
  with shape(4,6) have "save
     (map (\<lambda>row. take (ncols ?img - 40) (drop 20 (map (\<lambda>(r, g, b). g) row))) ?img)
     ''ref.png'' = Inl ValueError"
    by (simp add: save_def)
  with shape(1) show ?thesis by (simp add: registration_def)
qed

end
